theory Spec2Isabelle
  imports Complex_Main "HOL-Library.Char_ord" "HOL-Library.List_Lexorder" "HOL-Library.DAList"
    "HOL-Library.Multiset"
begin

section \<open>Data model (domain/types.ts)\<close>

text \<open>
  \<open>TaskId\<close> is a JavaScript string. The arrays of the engine are typed \<open>TaskId[]\<close>, but a
  slot of such an array can hold two other values at run time: \<open>undefined\<close>, which an
  index read past the end of an array returns and \<open>advanceFrame\<close> pushes without a check,
  and \<open>null\<close>, which is what \<open>JSON.stringify\<close> writes for an \<open>undefined\<close> array element.
  \<open>elem\<close> is the value of such a slot; the pair \<open>requestNextPair\<close> returns and the pair
  passed to \<open>commitComparison\<close> are read from these slots.
  \<open>CompareResult\<close> is the union \<open>-1 | 0 | 1\<close>: \<open>Less\<close>, \<open>Equal\<close>, \<open>Greater\<close>. Cursors
  and counts are natural numbers.
\<close>

type_synonym TaskId = string

datatype elem = Str TaskId | Undefined | Null

datatype CompareResult = Less | Equal | Greater

text \<open>Unary minus on \<open>-1 | 0 | 1\<close>.\<close>

fun negate :: "CompareResult \<Rightarrow> CompareResult" where
  "negate Less = Greater"
| "negate Equal = Equal"
| "negate Greater = Less"

text \<open>
  A \<open>Record<string, CompareResult>\<close> and a \<open>Map<string, CompareResult>\<close> are both
  dictionaries with unique keys that are enumerated in order; both are association lists
  with distinct keys, in the order of enumeration. Every read goes through a lookup by
  key.
\<close>

type_synonym CacheRecord = "(string, CompareResult) alist"

record MergeFrame =
  left :: "elem list"
  right :: "elem list"
  leftIdx :: nat
  rightIdx :: nat
  merged :: "elem list"

record MergeSortState =
  runs :: "elem list list"
  stack :: "MergeFrame list"
  result :: "elem list"

datatype Algo = Merge | Insertion

record SortingState =
  algo :: Algo
  comparisonsAsked :: nat
  comparisonsTotal :: nat
  cache :: CacheRecord
  internal :: "MergeSortState option"

section \<open>JavaScript operations on array slots\<close>

text \<open>
  \<open>elemAt xs i\<close> is the index read \<open>xs[i]\<close>. Where the source has checked the cursor
  against the length first, the model writes \<open>xs ! i\<close>, which is the same value there.
  \<open>toText x\<close> is the template literal \<open>`${x}`\<close>.
\<close>

definition elemAt :: "elem list \<Rightarrow> nat \<Rightarrow> elem" where
  "elemAt xs i = (if i < length xs then xs ! i else Undefined)"

fun toText :: "elem \<Rightarrow> string" where
  "toText (Str s) = s"
| "toText Undefined = ''undefined''"
| "toText Null = ''null''"

text \<open>
  \<open>a < b\<close> compares two strings by their code units. With any other operand both sides
  are converted to numbers: \<open>undefined\<close> is \<open>NaN\<close> and every comparison with it is false,
  \<open>null\<close> is \<open>0\<close>, and a string is read as a numeric literal (\<open>NaN\<close> when it is none). Only
  the sign of that number matters against \<open>0\<close>; \<open>signOfNumber\<close> computes it: surrounding
  white space is dropped, the empty string is \<open>0\<close>, then come the literals \<open>0x\<close>, \<open>0o\<close>,
  \<open>0b\<close> and the decimal literals with an optional sign, fraction and exponent, and
  \<open>Infinity\<close>. A decimal of absolute value at most \<open>2^-1075\<close> is rounded to zero.
\<close>

datatype numberSign = IsNaN | BelowZero | IsZero | AboveZero

definition isWhiteSpace :: "char \<Rightarrow> bool" where
  "isWhiteSpace c \<longleftrightarrow> (of_char c :: nat) \<in> {9, 10, 11, 12, 13, 32, 160}"

definition trim :: "string \<Rightarrow> string" where
  "trim s = rev (dropWhile isWhiteSpace (rev (dropWhile isWhiteSpace s)))"

definition isDigit :: "char \<Rightarrow> bool" where
  "isDigit c \<longleftrightarrow> c \<in> set ''0123456789''"

definition decimalValue :: "string \<Rightarrow> int" where
  "decimalValue ds = foldl (\<lambda>n c. 10 * n + (of_char c - 48)) 0 ds"

definition magnitude :: "int \<Rightarrow> int \<Rightarrow> numberSign" where
  "magnitude d e =
     (if d = 0 then IsZero
      else if 0 \<le> e then AboveZero
      else if 10 ^ nat (- e) < d * 2 ^ 1075 then AboveZero
      else IsZero)"

definition exponentOf :: "string \<Rightarrow> int option" where
  "exponentOf t =
     (case t of
        [] \<Rightarrow> None
      | c # ds \<Rightarrow>
          if c = CHR ''+'' \<or> c = CHR ''-'' then
            (if ds \<noteq> [] \<and> list_all isDigit ds
             then Some ((if c = CHR ''-'' then - 1 else 1) * decimalValue ds)
             else None)
          else if list_all isDigit t then Some (decimalValue t)
          else None)"

definition unsignedSign :: "string \<Rightarrow> numberSign" where
  "unsignedSign t =
     (if t = ''Infinity'' then AboveZero
      else
        let m = takeWhile (\<lambda>c. c \<noteq> CHR ''e'' \<and> c \<noteq> CHR ''E'') t;
            rest = dropWhile (\<lambda>c. c \<noteq> CHR ''e'' \<and> c \<noteq> CHR ''E'') t;
            ex = (if rest = [] then Some 0 else exponentOf (tl rest));
            ip = takeWhile isDigit m;
            r = dropWhile isDigit m;
            fp = (if r = [] then [] else tl r)
        in if (r = [] \<or> hd r = CHR ''.'') \<and> list_all isDigit fp \<and> (ip \<noteq> [] \<or> fp \<noteq> [])
           then (case ex of
                   None \<Rightarrow> IsNaN
                 | Some e \<Rightarrow> magnitude (decimalValue (ip @ fp)) (e - int (length fp)))
           else IsNaN)"

definition radixSign :: "string \<Rightarrow> numberSign" where
  "radixSign t =
     (case t of
        z # x # ds \<Rightarrow>
          if z = CHR ''0'' \<and> ds \<noteq> [] \<and>
             ((x \<in> set ''xX'' \<and> list_all (\<lambda>c. c \<in> set ''0123456789abcdefABCDEF'') ds) \<or>
              (x \<in> set ''oO'' \<and> list_all (\<lambda>c. c \<in> set ''01234567'') ds) \<or>
              (x \<in> set ''bB'' \<and> list_all (\<lambda>c. c \<in> set ''01'') ds))
          then (if list_all (\<lambda>c. c = CHR ''0'') ds then IsZero else AboveZero)
          else IsNaN
      | _ \<Rightarrow> IsNaN)"

definition signOfNumber :: "string \<Rightarrow> numberSign" where
  "signOfNumber s =
     (let t = trim s in
      if t = [] then IsZero
      else if radixSign t \<noteq> IsNaN then radixSign t
      else if hd t = CHR ''+'' then unsignedSign (tl t)
      else if hd t = CHR ''-'' then
        (case unsignedSign (tl t) of AboveZero \<Rightarrow> BelowZero | other \<Rightarrow> other)
      else unsignedSign t)"

fun jsLess :: "elem \<Rightarrow> elem \<Rightarrow> bool" where
  "jsLess (Str a) (Str b) = (a < b)"
| "jsLess Null (Str b) = (signOfNumber b = AboveZero)"
| "jsLess (Str a) Null = (signOfNumber a = BelowZero)"
| "jsLess _ _ = False"

section \<open>Comparison cache (sortingEngine/cache.ts)\<close>

definition createCacheKey :: "elem \<Rightarrow> elem \<Rightarrow> string" where
  "createCacheKey a b =
     (if jsLess a b then toText a @ ''|'' @ toText b else toText b @ ''|'' @ toText a)"

definition normalizeResult :: "elem \<Rightarrow> elem \<Rightarrow> CompareResult \<Rightarrow> CompareResult" where
  "normalizeResult a b res =
     (if jsLess a b then res else (if res = Equal then Equal else negate res))"

text \<open>\<open>Object.entries(record).forEach(([key, value]) => cache.set(key, value))\<close>\<close>

definition setEntries :: "(string \<times> CompareResult) list \<Rightarrow> CacheRecord \<Rightarrow> CacheRecord" where
  "setEntries entries m = fold (\<lambda>(key, v) acc. DAList.update key v acc) entries m"

text \<open>
  The closure returned by \<open>createComparisonCache\<close> owns one \<open>Map\<close>; the model passes that
  map explicitly to each method and returns the updated one.
\<close>

definition createComparisonCache :: "CacheRecord option \<Rightarrow> CacheRecord" where
  "createComparisonCache initialData =
     (case initialData of
        None \<Rightarrow> DAList.empty
      | Some r \<Rightarrow> setEntries (DAList.impl_of r) DAList.empty)"

definition cache_get :: "CacheRecord \<Rightarrow> elem \<Rightarrow> elem \<Rightarrow> CompareResult option" where
  "cache_get m a b =
     (case DAList.lookup m (createCacheKey a b) of
        None \<Rightarrow> None
      | Some cached \<Rightarrow> Some (normalizeResult a b cached))"

definition cache_set :: "CacheRecord \<Rightarrow> elem \<Rightarrow> elem \<Rightarrow> CompareResult \<Rightarrow> CacheRecord" where
  "cache_set m a b res = DAList.update (createCacheKey a b) (normalizeResult a b res) m"

definition cache_has :: "CacheRecord \<Rightarrow> elem \<Rightarrow> elem \<Rightarrow> bool" where
  "cache_has m a b = (DAList.lookup m (createCacheKey a b) \<noteq> None)"

definition cache_clear :: "CacheRecord \<Rightarrow> CacheRecord" where
  "cache_clear m = DAList.empty"

text \<open>
  \<open>record[key] = value\<close> on the plain object \<open>toRecord\<close> builds: it creates or updates the
  own property \<open>key\<close>, except for the key \<open>__proto__\<close>, which reaches the setter inherited
  from \<open>Object.prototype\<close>; that setter ignores a value that is not an object, so no
  property is created. \<open>Object.entries\<close> and \<open>JSON.parse\<close> do handle an own property of
  that name like any other.
\<close>

definition assign :: "string \<Rightarrow> CompareResult \<Rightarrow> CacheRecord \<Rightarrow> CacheRecord" where
  "assign key v r = (if key = ''__proto__'' then r else DAList.update key v r)"

definition toRecord :: "CacheRecord \<Rightarrow> CacheRecord" where
  "toRecord m = fold (\<lambda>(key, v) r. assign key v r) (DAList.impl_of m) DAList.empty"

definition fromRecord :: "CacheRecord \<Rightarrow> CacheRecord \<Rightarrow> CacheRecord" where
  "fromRecord m r = setEntries (DAList.impl_of r) (cache_clear m)"

text \<open>
  \<open>applyTransitiveClosure\<close>: the graph is a \<open>Map<TaskId, Set<TaskId>>\<close>;
  \<open>graph.get(a)?.add(b)\<close> does nothing when \<open>a\<close> is not a key. The list of identifiers
  is the caller's, a list of strings.
\<close>

type_synonym Graph = "TaskId \<rightharpoonup> TaskId set"

definition graph_add :: "Graph \<Rightarrow> TaskId \<Rightarrow> TaskId \<Rightarrow> Graph" where
  "graph_add g a b = (case g a of None \<Rightarrow> g | Some s \<Rightarrow> g(a \<mapsto> insert b s))"

definition graph_has :: "Graph \<Rightarrow> TaskId \<Rightarrow> TaskId \<Rightarrow> bool" where
  "graph_has g a b = (case g a of None \<Rightarrow> False | Some s \<Rightarrow> b \<in> s)"

definition initGraph :: "TaskId list \<Rightarrow> Graph" where
  "initGraph taskIds = fold (\<lambda>id g. g(id \<mapsto> {})) taskIds Map.empty"

definition addDirect :: "CacheRecord \<Rightarrow> TaskId \<Rightarrow> TaskId \<Rightarrow> Graph \<Rightarrow> Graph" where
  "addDirect m a b g =
     (if a = b then g
      else (case cache_get m (Str a) (Str b) of
              Some Greater \<Rightarrow> graph_add g a b
            | Some Less \<Rightarrow> graph_add g b a
            | _ \<Rightarrow> g))"

definition directGraph :: "CacheRecord \<Rightarrow> TaskId list \<Rightarrow> Graph" where
  "directGraph m taskIds =
     fold (\<lambda>a. fold (\<lambda>b. addDirect m a b) taskIds) taskIds (initGraph taskIds)"

definition closureStep ::
  "TaskId \<Rightarrow> TaskId \<Rightarrow> TaskId \<Rightarrow> Graph \<times> CacheRecord \<Rightarrow> Graph \<times> CacheRecord" where
  "closureStep k i j gm =
     (let g = fst gm; m = snd gm in
      if i = j \<or> i = k \<or> j = k then gm
      else if graph_has g i k \<and> graph_has g k j
           then (graph_add g i j,
                 if \<not> cache_has m (Str i) (Str j) then cache_set m (Str i) (Str j) Greater else m)
           else gm)"

definition applyTransitiveClosure :: "CacheRecord \<Rightarrow> TaskId list \<Rightarrow> CacheRecord" where
  "applyTransitiveClosure m taskIds =
     snd (fold (\<lambda>k. fold (\<lambda>i. fold (\<lambda>j. closureStep k i j) taskIds) taskIds) taskIds
            (directGraph m taskIds, m))"

section \<open>Merge engine (sortingEngine/mergeEngine.ts)\<close>

text \<open>
  The engine mutates \<open>state.internal\<close> in place; the model returns the state after the
  call next to the result, and the caller passes that state to the next call. The top of
  the stack is its last element (\<open>push\<close>, \<open>pop\<close>); \<open>runs.shift()\<close> takes the first run.
  \<open>cache.get(a, b)!\<close> is \<open>the (cache_get c a b)\<close>, read only where \<open>cache.has(a, b)\<close>
  holds.

  \<open>createSession\<close> takes the caller's list of identifiers, a list of strings.
  \<open>commitComparison\<close> throws a \<open>TypeError\<close> when \<open>state.internal\<close> is \<open>null\<close>
  (\<open>internal.stack\<close> is read), and nothing else: \<open>advanceFrame\<close> reads the run at the
  cursor without a check, so past the end it pushes \<open>undefined\<close> and still moves the
  cursor. \<open>requestNextPair\<close> never reads out of range: it checks both cursors first.

  \<open>estimateComparisons\<close> is \<open>Math.ceil(n * Math.log2(n))\<close> read on the real numbers.
\<close>

datatype fault = TypeError

definition estimateComparisons :: "nat \<Rightarrow> nat" where
  "estimateComparisons n = (if n \<le> 1 then 0 else nat \<lceil>real n * log 2 (real n)\<rceil>)"

definition createSession :: "TaskId list \<Rightarrow> CacheRecord option \<Rightarrow> SortingState" where
  "createSession taskIds existingCache =
     (let c = createComparisonCache existingCache;
          rs = map (\<lambda>id. [Str id]) taskIds
      in \<lparr>algo = Merge,
          comparisonsAsked = 0,
          comparisonsTotal = estimateComparisons (length taskIds),
          cache = toRecord c,
          internal = Some \<lparr>runs = rs, stack = [], result = []\<rparr>\<rparr>)"

definition advanceFrame :: "MergeFrame \<Rightarrow> CompareResult \<Rightarrow> MergeFrame" where
  "advanceFrame frame res =
     (if res = Greater \<or> res = Equal
      then frame\<lparr>merged := merged frame @ [elemAt (left frame) (leftIdx frame)],
                 leftIdx := leftIdx frame + 1\<rparr>
      else frame\<lparr>merged := merged frame @ [elemAt (right frame) (rightIdx frame)],
                 rightIdx := rightIdx frame + 1\<rparr>)"

function drainLeft :: "MergeFrame \<Rightarrow> MergeFrame" where
  "drainLeft frame =
     (if leftIdx frame < length (left frame)
      then drainLeft (frame\<lparr>merged := merged frame @ [left frame ! leftIdx frame],
                            leftIdx := leftIdx frame + 1\<rparr>)
      else frame)"
  by pat_completeness auto
termination
  by (relation "measure (\<lambda>f. length (left f) - leftIdx f)") auto

function drainRight :: "MergeFrame \<Rightarrow> MergeFrame" where
  "drainRight frame =
     (if rightIdx frame < length (right frame)
      then drainRight (frame\<lparr>merged := merged frame @ [right frame ! rightIdx frame],
                             rightIdx := rightIdx frame + 1\<rparr>)
      else frame)"
  by pat_completeness auto
termination
  by (relation "measure (\<lambda>f. length (right f) - rightIdx f)") auto

declare drainLeft.simps [simp del] drainRight.simps [simp del]

text \<open>Measures for the recursion of \<open>requestNextPair\<close>.\<close>

definition frameComplete :: "MergeFrame \<Rightarrow> bool" where
  "frameComplete frame \<longleftrightarrow>
     leftIdx frame \<ge> length (left frame) \<or> rightIdx frame \<ge> length (right frame)"

definition remaining :: "MergeFrame \<Rightarrow> nat" where
  "remaining frame = (length (left frame) - leftIdx frame) + (length (right frame) - rightIdx frame)"

definition pendingWork :: "SortingState \<Rightarrow> nat" where
  "pendingWork state =
     (case internal state of
        None \<Rightarrow> 0
      | Some st \<Rightarrow> 2 * length (runs st) + 3 * length (stack st))"

definition topRemaining :: "SortingState \<Rightarrow> nat" where
  "topRemaining state =
     (case internal state of
        None \<Rightarrow> 0
      | Some st \<Rightarrow> (if stack st = [] then 0 else remaining (last (stack st))))"

function requestNextPair :: "SortingState \<Rightarrow> (elem \<times> elem) option \<times> SortingState" where
  "requestNextPair state =
     (case internal state of
        None \<Rightarrow> (None, state)
      | Some st \<Rightarrow>
          let c = createComparisonCache (Some (cache state)) in
          if length (stack st) > 0 then
            let frame = last (stack st) in
            if leftIdx frame \<ge> length (left frame) \<or> rightIdx frame \<ge> length (right frame) then
              let frame' = drainRight (drainLeft frame);
                  st' = st\<lparr>stack := butlast (stack st), runs := runs st @ [merged frame']\<rparr>
              in requestNextPair (state\<lparr>internal := Some st'\<rparr>)
            else
              let a = left frame ! leftIdx frame;
                  b = right frame ! rightIdx frame
              in if cache_has c a b then
                   let frame' = advanceFrame frame (the (cache_get c a b));
                       st' = st\<lparr>stack := butlast (stack st) @ [frame']\<rparr>
                   in requestNextPair (state\<lparr>internal := Some st'\<rparr>)
                 else (Some (a, b), state)
          else if length (runs st) = 0 then (None, state)
          else if length (runs st) = 1 then
            (None, state\<lparr>internal := Some (st\<lparr>result := runs st ! 0\<rparr>)\<rparr>)
          else
            let l = runs st ! 0;
                r = runs st ! 1;
                newFrame = \<lparr>left = l, right = r, leftIdx = 0, rightIdx = 0, merged = []\<rparr>;
                st' = st\<lparr>runs := drop 2 (runs st), stack := stack st @ [newFrame]\<rparr>
            in requestNextPair (state\<lparr>internal := Some st'\<rparr>))"
  by pat_completeness auto
termination
proof (relation "measures [pendingWork, topRemaining]", goal_cases)
  case 1
  show ?case by simp
next
  case (2 state st c frame frame' st')
  then show ?case by (cases "stack st" rule: rev_cases) (auto simp: pendingWork_def)
next
  case (3 state st c frame a b frame' st')
  then show ?case
    by (cases "stack st" rule: rev_cases)
       (auto simp: pendingWork_def topRemaining_def remaining_def advanceFrame_def)
next
  case (4 state st c l r newFrame st')
  then have "2 \<le> length (runs st)" by arith
  then have "2 * (length (runs st) - 2) + 3 < 2 * length (runs st)" by arith
  with 4 show ?case by (simp add: pendingWork_def)
qed

declare requestNextPair.simps [simp del]

definition commitComparison ::
  "SortingState \<Rightarrow> elem \<Rightarrow> elem \<Rightarrow> CompareResult \<Rightarrow> fault + SortingState" where
  "commitComparison state a b res =
     (case internal state of
        None \<Rightarrow> Inl TypeError
      | Some st \<Rightarrow>
          let c = cache_set (createComparisonCache (Some (cache state))) a b res in
          if length (stack st) > 0 then
            let frame = last (stack st) in
            Inr (state\<lparr>comparisonsAsked := comparisonsAsked state + 1,
                       cache := toRecord c,
                       internal := Some (st\<lparr>stack := butlast (stack st) @ [advanceFrame frame res]\<rparr>)\<rparr>)
          else
            Inr (state\<lparr>comparisonsAsked := comparisonsAsked state + 1,
                       cache := toRecord c,
                       internal := Some st\<rparr>))"

definition isComplete :: "SortingState \<Rightarrow> bool" where
  "isComplete state =
     (case internal state of
        None \<Rightarrow> True
      | Some st \<Rightarrow> length (runs st) = 1 \<and> length (stack st) = 0)"

definition finalize :: "SortingState \<Rightarrow> elem list" where
  "finalize state =
     (case internal state of
        None \<Rightarrow> []
      | Some st \<Rightarrow> if length (runs st) = 1 then runs st ! 0 else result st)"

definition resetWithCache :: "SortingState \<Rightarrow> TaskId list \<Rightarrow> SortingState" where
  "resetWithCache state taskIds = createSession taskIds (Some (cache state))"

section \<open>Persistence (storage/idb.ts)\<close>

text \<open>
  The \<open>localStorage\<close> adapter writes \<open>JSON.stringify(value)\<close> and reads
  \<open>JSON.parse(raw) as T\<close> (the IndexedDB adapter hands the value to the database, which
  keeps a structured copy of it). \<open>json\<close> is the tree of a JSON text; \<open>serialize\<close> is
  \<open>JSON.stringify\<close> on a value of type \<open>SortingState\<close>, and \<open>deserialize\<close> reads such a
  tree back field by field (\<open>None\<close> when the tree does not have the shape of the type,
  which the unchecked cast of the source does not detect). An array element that is \<open>undefined\<close> is written as \<open>null\<close>, and
  \<open>null\<close> is read back as \<open>null\<close>. Counts are far below \<open>2^53\<close>, so numbers are kept
  exactly.
\<close>

datatype json = JNull | JNum int | JStr string | JArr "json list" | JObj "(string \<times> json) list"

definition encResult :: "CompareResult \<Rightarrow> json" where
  "encResult r = (case r of Less \<Rightarrow> JNum (- 1) | Equal \<Rightarrow> JNum 0 | Greater \<Rightarrow> JNum 1)"

definition encElem :: "elem \<Rightarrow> json" where
  "encElem x = (case x of Str s \<Rightarrow> JStr s | Undefined \<Rightarrow> JNull | Null \<Rightarrow> JNull)"

definition encIds :: "elem list \<Rightarrow> json" where
  "encIds ids = JArr (map encElem ids)"

definition encFrame :: "MergeFrame \<Rightarrow> json" where
  "encFrame f =
     JObj [(''left'', encIds (left f)), (''right'', encIds (right f)),
           (''leftIdx'', JNum (int (leftIdx f))), (''rightIdx'', JNum (int (rightIdx f))),
           (''merged'', encIds (merged f))]"

definition encInternal :: "MergeSortState \<Rightarrow> json" where
  "encInternal st =
     JObj [(''runs'', JArr (map encIds (runs st))), (''stack'', JArr (map encFrame (stack st))),
           (''result'', encIds (result st))]"

definition serialize :: "SortingState \<Rightarrow> json" where
  "serialize s =
     JObj [(''algo'', JStr (case algo s of Merge \<Rightarrow> ''merge'' | Insertion \<Rightarrow> ''insertion'')),
           (''comparisonsAsked'', JNum (int (comparisonsAsked s))),
           (''comparisonsTotal'', JNum (int (comparisonsTotal s))),
           (''cache'', JObj (map (\<lambda>(key, v). (key, encResult v)) (DAList.impl_of (cache s)))),
           (''internal'', (case internal s of None \<Rightarrow> JNull | Some st \<Rightarrow> encInternal st))]"

definition field :: "string \<Rightarrow> json \<Rightarrow> json option" where
  "field name j = (case j of JObj kvs \<Rightarrow> map_of kvs name | _ \<Rightarrow> None)"

definition decResult :: "json \<Rightarrow> CompareResult option" where
  "decResult j =
     (case j of
        JNum i \<Rightarrow> (if i = - 1 then Some Less else if i = 0 then Some Equal
                   else if i = 1 then Some Greater else None)
      | _ \<Rightarrow> None)"

definition decNat :: "json \<Rightarrow> nat option" where
  "decNat j = (case j of JNum i \<Rightarrow> (if 0 \<le> i then Some (nat i) else None) | _ \<Rightarrow> None)"

definition decElem :: "json \<Rightarrow> elem option" where
  "decElem j = (case j of JStr s \<Rightarrow> Some (Str s) | JNull \<Rightarrow> Some Null | _ \<Rightarrow> None)"

definition decList :: "(json \<Rightarrow> 'a option) \<Rightarrow> json \<Rightarrow> 'a list option" where
  "decList d j = (case j of JArr xs \<Rightarrow> those (map d xs) | _ \<Rightarrow> None)"

definition decFrame :: "json \<Rightarrow> MergeFrame option" where
  "decFrame j =
     (case (Option.bind (field ''left'' j) (decList decElem),
            Option.bind (field ''right'' j) (decList decElem),
            Option.bind (field ''leftIdx'' j) decNat,
            Option.bind (field ''rightIdx'' j) decNat,
            Option.bind (field ''merged'' j) (decList decElem)) of
        (Some l, Some r, Some li, Some ri, Some m) \<Rightarrow>
          Some \<lparr>left = l, right = r, leftIdx = li, rightIdx = ri, merged = m\<rparr>
      | _ \<Rightarrow> None)"

definition decInternal :: "json \<Rightarrow> MergeSortState option" where
  "decInternal j =
     (case (Option.bind (field ''runs'' j) (decList (decList decElem)),
            Option.bind (field ''stack'' j) (decList decFrame),
            Option.bind (field ''result'' j) (decList decElem)) of
        (Some rs, Some fs, Some res) \<Rightarrow> Some \<lparr>runs = rs, stack = fs, result = res\<rparr>
      | _ \<Rightarrow> None)"

definition decAlgo :: "json \<Rightarrow> Algo option" where
  "decAlgo j =
     (case j of
        JStr s \<Rightarrow> (if s = ''merge'' then Some Merge
                   else if s = ''insertion'' then Some Insertion else None)
      | _ \<Rightarrow> None)"

definition decCache :: "json \<Rightarrow> CacheRecord option" where
  "decCache j =
     (case j of
        JObj kvs \<Rightarrow>
          map_option (\<lambda>entries. setEntries entries DAList.empty)
            (those (map (\<lambda>(key, v). map_option (Pair key) (decResult v)) kvs))
      | _ \<Rightarrow> None)"

definition decNullable :: "(json \<Rightarrow> 'a option) \<Rightarrow> json \<Rightarrow> 'a option option" where
  "decNullable d j = (case j of JNull \<Rightarrow> Some None | _ \<Rightarrow> map_option Some (d j))"

definition deserialize :: "json \<Rightarrow> SortingState option" where
  "deserialize j =
     (case (Option.bind (field ''algo'' j) decAlgo,
            Option.bind (field ''comparisonsAsked'' j) decNat,
            Option.bind (field ''comparisonsTotal'' j) decNat,
            Option.bind (field ''cache'' j) decCache,
            Option.bind (field ''internal'' j) (decNullable decInternal)) of
        (Some al, Some asked, Some estimate, Some c, Some st) \<Rightarrow>
          Some \<lparr>algo = al, comparisonsAsked = asked, comparisonsTotal = estimate, cache = c,
                internal = st\<rparr>
      | _ \<Rightarrow> None)"

section \<open>Facts about the cache\<close>

lemma fold_update_distinct:
  "distinct (map fst (acc @ xs)) \<Longrightarrow>
   fold (\<lambda>(key, v) acc. AList.update key v acc) xs acc = acc @ xs"
proof (induction xs arbitrary: acc)
  case Nil
  then show ?case by simp
next
  case (Cons p xs)
  obtain k v where p: "p = (k, v)" by (cases p)
  from Cons.prems have "k \<notin> fst ` set acc" by (auto simp: p)
  then have u: "AList.update k v acc = acc @ [(k, v)]"
    by (induction acc) auto
  show ?case using Cons.IH[of "acc @ [(k, v)]"] Cons.prems by (simp add: p u)
qed

lemma impl_of_setEntries:
  "DAList.impl_of (setEntries xs m) =
     fold (\<lambda>(key, v) acc. AList.update key v acc) xs (DAList.impl_of m)"
  unfolding setEntries_def
  by (induction xs arbitrary: m) (auto simp: DAList.update.rep_eq)

lemma setEntries_impl_of_empty: "setEntries (DAList.impl_of r) DAList.empty = r"
  by (rule alist_ext) (simp add: impl_of_setEntries DAList.empty.rep_eq fold_update_distinct)

lemma createComparisonCache_Some: "createComparisonCache (Some r) = r"
  by (simp add: createComparisonCache_def setEntries_impl_of_empty)

lemma createComparisonCache_None: "createComparisonCache None = DAList.empty"
  by (simp add: createComparisonCache_def)

lemma fromRecord_eq: "fromRecord m r = r"
  by (simp add: fromRecord_def cache_clear_def setEntries_impl_of_empty)

text \<open>\<open>toRecord\<close> loses the key \<open>__proto__\<close> and nothing else.\<close>

lemma lookup_fold_assign:
  "distinct (map fst xs) \<Longrightarrow>
   DAList.lookup (fold (\<lambda>(key, v) r. assign key v r) xs acc) k =
     (if k = ''__proto__'' then DAList.lookup acc k
      else (case map_of xs k of None \<Rightarrow> DAList.lookup acc k | Some v \<Rightarrow> Some v))"
proof (induction xs arbitrary: acc)
  case Nil
  then show ?case by simp
next
  case (Cons p xs)
  obtain k' v' where p: "p = (k', v')" by (cases p)
  from Cons.prems have d: "distinct (map fst xs)" and n: "k' \<notin> fst ` set xs" by (auto simp: p)
  from n have m: "map_of xs k' = None" by (simp add: map_of_eq_None_iff)
  show ?case
    using Cons.IH[OF d, of "assign k' v' acc"] m
    by (auto simp: p assign_def lookup_update split: option.splits)
qed

lemma lookup_toRecord:
  "DAList.lookup (toRecord m) k = (if k = ''__proto__'' then None else DAList.lookup m k)"
proof -
  have "distinct (map fst (DAList.impl_of m))" by (rule impl_of_distinct)
  from lookup_fold_assign[OF this, of DAList.empty k] show ?thesis
    by (auto simp: toRecord_def DAList.lookup.rep_eq DAList.empty.rep_eq split: option.splits)
qed

lemma fold_assign_update:
  "''__proto__'' \<notin> fst ` set xs \<Longrightarrow>
   fold (\<lambda>(key, v) r. assign key v r) xs acc = setEntries xs acc"
  unfolding setEntries_def
  by (induction xs arbitrary: acc) (auto simp: assign_def)

lemma toRecord_proper: "DAList.lookup m ''__proto__'' = None \<Longrightarrow> toRecord m = m"
proof -
  assume "DAList.lookup m ''__proto__'' = None"
  then have "''__proto__'' \<notin> fst ` set (DAList.impl_of m)"
    by (simp add: DAList.lookup.rep_eq map_of_eq_None_iff)
  then show ?thesis
    by (simp add: toRecord_def fold_assign_update setEntries_impl_of_empty)
qed

lemma toRecord_empty [simp]: "toRecord DAList.empty = DAList.empty"
  by (simp add: toRecord_def DAList.empty.rep_eq)

lemma key_has_bar: "CHR ''|'' \<in> set (createCacheKey a b)"
  by (simp add: createCacheKey_def)

lemma key_not_proto: "createCacheKey a b \<noteq> ''__proto__''"
proof
  assume "createCacheKey a b = ''__proto__''"
  with key_has_bar[of a b] show False by simp
qed

lemma cache_get_toRecord [simp]: "cache_get (toRecord m) a b = cache_get m a b"
  by (simp add: cache_get_def lookup_toRecord key_not_proto)

lemma cache_has_toRecord [simp]: "cache_has (toRecord m) a b = cache_has m a b"
  by (simp add: cache_has_def lookup_toRecord key_not_proto)

text \<open>The key and the stored result of a pair of strings.\<close>

lemma createCacheKey_Str:
  "createCacheKey (Str a) (Str b) = (if a < b then a @ ''|'' @ b else b @ ''|'' @ a)"
  by (simp add: createCacheKey_def)

lemma normalizeResult_Str:
  "normalizeResult (Str a) (Str b) res =
     (if a < b then res else (if res = Equal then Equal else negate res))"
  by (simp add: normalizeResult_def)

lemma createCacheKey_sym: "createCacheKey (Str b) (Str a) = createCacheKey (Str a) (Str b)"
  by (cases "a = b") (auto simp: createCacheKey_Str)

lemma negate_negate: "negate (negate r) = r"
  by (cases r) auto

lemma normalizeResult_swap:
  "a \<noteq> b \<Longrightarrow> normalizeResult (Str b) (Str a) r = negate (normalizeResult (Str a) (Str b) r)"
  by (cases r) (auto simp: normalizeResult_Str)

lemma normalizeResult_invol: "normalizeResult a b (normalizeResult a b r) = r"
  by (cases r) (auto simp: normalizeResult_def)

lemma cache_get_set_same: "cache_get (cache_set c a b r) a b = Some r"
  by (simp add: cache_get_def cache_set_def normalizeResult_invol)

lemma cache_get_swap:
  "a \<noteq> b \<Longrightarrow> cache_get c (Str b) (Str a) = map_option negate (cache_get c (Str a) (Str b))"
  unfolding cache_get_def createCacheKey_sym[where a=a and b=b]
  by (cases "DAList.lookup c (createCacheKey (Str a) (Str b))")
     (simp_all add: normalizeResult_swap[of a b])

lemma cache_has_swap: "cache_has c (Str b) (Str a) = cache_has c (Str a) (Str b)"
  unfolding cache_has_def createCacheKey_sym[where a=a and b=b] ..

lemma cache_get_set_swap:
  "a \<noteq> b \<Longrightarrow> cache_get (cache_set c (Str a) (Str b) r) (Str b) (Str a) = Some (negate r)"
  using cache_get_swap[of a b "cache_set c (Str a) (Str b) r"] by (simp add: cache_get_set_same)

lemma cache_has_get: "cache_has c a b \<longleftrightarrow> cache_get c a b \<noteq> None"
  by (simp add: cache_has_def cache_get_def split: option.splits)

section \<open>Facts about the merge engine\<close>

lemma rnp_none: "internal s = None \<Longrightarrow> requestNextPair s = (None, s)"
  by (subst requestNextPair.simps) simp

lemma rnp_complete:
  "internal s = Some st \<Longrightarrow> stack st \<noteq> [] \<Longrightarrow> frameComplete (last (stack st)) \<Longrightarrow>
   requestNextPair s =
     requestNextPair (s\<lparr>internal := Some (st\<lparr>stack := butlast (stack st),
        runs := runs st @ [merged (drainRight (drainLeft (last (stack st))))]\<rparr>)\<rparr>)"
  by (subst requestNextPair.simps) (simp add: frameComplete_def Let_def)

lemma rnp_hit:
  "internal s = Some st \<Longrightarrow> stack st \<noteq> [] \<Longrightarrow> \<not> frameComplete (last (stack st)) \<Longrightarrow>
   cache_has (createComparisonCache (Some (cache s)))
     (left (last (stack st)) ! leftIdx (last (stack st)))
     (right (last (stack st)) ! rightIdx (last (stack st))) \<Longrightarrow>
   requestNextPair s =
     requestNextPair (s\<lparr>internal := Some (st\<lparr>stack := butlast (stack st) @
        [advanceFrame (last (stack st))
           (the (cache_get (createComparisonCache (Some (cache s)))
              (left (last (stack st)) ! leftIdx (last (stack st)))
              (right (last (stack st)) ! rightIdx (last (stack st)))))]\<rparr>)\<rparr>)"
  by (subst requestNextPair.simps) (simp add: frameComplete_def Let_def)

lemma rnp_ask:
  "internal s = Some st \<Longrightarrow> stack st \<noteq> [] \<Longrightarrow> \<not> frameComplete (last (stack st)) \<Longrightarrow>
   \<not> cache_has (createComparisonCache (Some (cache s)))
     (left (last (stack st)) ! leftIdx (last (stack st)))
     (right (last (stack st)) ! rightIdx (last (stack st))) \<Longrightarrow>
   requestNextPair s =
     (Some (left (last (stack st)) ! leftIdx (last (stack st)),
            right (last (stack st)) ! rightIdx (last (stack st))), s)"
  by (subst requestNextPair.simps) (simp add: frameComplete_def Let_def)

lemma rnp_empty:
  "internal s = Some st \<Longrightarrow> stack st = [] \<Longrightarrow> runs st = [] \<Longrightarrow> requestNextPair s = (None, s)"
  by (subst requestNextPair.simps) simp

lemma rnp_done:
  "internal s = Some st \<Longrightarrow> stack st = [] \<Longrightarrow> runs st = [r] \<Longrightarrow>
   requestNextPair s = (None, s\<lparr>internal := Some (st\<lparr>result := r\<rparr>)\<rparr>)"
  by (subst requestNextPair.simps) simp

lemma rnp_start:
  "internal s = Some st \<Longrightarrow> stack st = [] \<Longrightarrow> runs st = l # r # rest \<Longrightarrow>
   requestNextPair s =
     requestNextPair (s\<lparr>internal := Some (st\<lparr>runs := rest,
        stack := [\<lparr>left = l, right = r, leftIdx = 0, rightIdx = 0, merged = []\<rparr>]\<rparr>)\<rparr>)"
  by (subst requestNextPair.simps) simp

text \<open>Computation induction for \<open>requestNextPair\<close>, one case per branch of the source.\<close>

lemma rnp_induct [case_names none complete hit ask empty finished start]:
  fixes s :: SortingState
  assumes "\<And>s::SortingState. internal s = None \<Longrightarrow> P s"
    and "\<And>s st. internal s = Some st \<Longrightarrow> stack st \<noteq> [] \<Longrightarrow> frameComplete (last (stack st)) \<Longrightarrow>
          P (s\<lparr>internal := Some (st\<lparr>stack := butlast (stack st),
              runs := runs st @ [merged (drainRight (drainLeft (last (stack st))))]\<rparr>)\<rparr>) \<Longrightarrow> P s"
    and "\<And>s st. internal s = Some st \<Longrightarrow> stack st \<noteq> [] \<Longrightarrow> \<not> frameComplete (last (stack st)) \<Longrightarrow>
          cache_has (createComparisonCache (Some (cache s)))
            (left (last (stack st)) ! leftIdx (last (stack st)))
            (right (last (stack st)) ! rightIdx (last (stack st))) \<Longrightarrow>
          P (s\<lparr>internal := Some (st\<lparr>stack := butlast (stack st) @
              [advanceFrame (last (stack st))
                 (the (cache_get (createComparisonCache (Some (cache s)))
                    (left (last (stack st)) ! leftIdx (last (stack st)))
                    (right (last (stack st)) ! rightIdx (last (stack st)))))]\<rparr>)\<rparr>) \<Longrightarrow> P s"
    and "\<And>s st. internal s = Some st \<Longrightarrow> stack st \<noteq> [] \<Longrightarrow> \<not> frameComplete (last (stack st)) \<Longrightarrow>
          \<not> cache_has (createComparisonCache (Some (cache s)))
            (left (last (stack st)) ! leftIdx (last (stack st)))
            (right (last (stack st)) ! rightIdx (last (stack st))) \<Longrightarrow> P s"
    and "\<And>s st. internal s = Some st \<Longrightarrow> stack st = [] \<Longrightarrow> runs st = [] \<Longrightarrow> P s"
    and "\<And>s st r. internal s = Some st \<Longrightarrow> stack st = [] \<Longrightarrow> runs st = [r] \<Longrightarrow> P s"
    and "\<And>s st l r rest. internal s = Some st \<Longrightarrow> stack st = [] \<Longrightarrow> runs st = l # r # rest \<Longrightarrow>
          P (s\<lparr>internal := Some (st\<lparr>runs := rest,
              stack := [\<lparr>left = l, right = r, leftIdx = 0, rightIdx = 0, merged = []\<rparr>]\<rparr>)\<rparr>) \<Longrightarrow> P s"
  shows "P s"
proof (induction s rule: requestNextPair.induct)
  case (1 state)
  show ?case
  proof (cases "internal state")
    case None
    then show ?thesis by (rule assms(1))
  next
    case (Some st)
    show ?thesis
    proof (cases "stack st = []")
      case False
      note ne = this
      show ?thesis
      proof (cases "frameComplete (last (stack st))")
        case True
        show ?thesis
          by (rule assms(2)[OF Some ne True], rule "1.IH"(1)[OF Some refl _ refl _ refl refl])
             (use ne True in \<open>auto simp: frameComplete_def\<close>)
      next
        case nc: False
        show ?thesis
        proof (cases "cache_has (createComparisonCache (Some (cache state)))
            (left (last (stack st)) ! leftIdx (last (stack st)))
            (right (last (stack st)) ! rightIdx (last (stack st)))")
          case True
          show ?thesis
            by (rule assms(3)[OF Some ne nc True],
                rule "1.IH"(2)[OF Some refl _ refl _ refl refl _ refl refl])
               (use ne nc True in \<open>auto simp: frameComplete_def\<close>)
        next
          case False
          then show ?thesis by (rule assms(4)[OF Some ne nc])
        qed
      qed
    next
      case True
      note em = this
      show ?thesis
      proof (cases "runs st")
        case Nil
        then show ?thesis by (rule assms(5)[OF Some em])
      next
        case (Cons l rs)
        show ?thesis
        proof (cases rs)
          case Nil
          with Cons show ?thesis by (auto intro: assms(6)[OF Some em])
        next
          case (Cons r rest)
          with \<open>runs st = l # rs\<close> have rl: "runs st = l # r # rest" by simp
          have "P (state\<lparr>internal := Some (st\<lparr>runs := drop 2 (runs st),
              stack := stack st @ [\<lparr>left = runs st ! 0, right = runs st ! 1, leftIdx = 0, rightIdx = 0, merged = []\<rparr>]\<rparr>)\<rparr>)"
            by (rule "1.IH"(3)[OF Some refl _ _ _ refl refl refl refl]) (use em rl in auto)
          then show ?thesis using em rl by (auto intro: assms(7)[OF Some em rl])
        qed
      qed
    qed
  qed
qed

lemma drainLeft_eq:
  "drainLeft f = f\<lparr>merged := merged f @ drop (leftIdx f) (left f),
                    leftIdx := max (leftIdx f) (length (left f))\<rparr>"
proof (induction f rule: drainLeft.induct)
  case (1 frame)
  show ?case
  proof (cases "leftIdx frame < length (left frame)")
    case True
    then show ?thesis
      using 1 by (subst drainLeft.simps) (simp add: Cons_nth_drop_Suc max_def)
  next
    case False
    then show ?thesis by (subst drainLeft.simps) (simp add: max_def)
  qed
qed

lemma drainRight_eq:
  "drainRight f = f\<lparr>merged := merged f @ drop (rightIdx f) (right f),
                     rightIdx := max (rightIdx f) (length (right f))\<rparr>"
proof (induction f rule: drainRight.induct)
  case (1 frame)
  show ?case
  proof (cases "rightIdx frame < length (right frame)")
    case True
    then show ?thesis
      using 1 by (subst drainRight.simps) (simp add: Cons_nth_drop_Suc max_def)
  next
    case False
    then show ?thesis by (subst drainRight.simps) (simp add: max_def)
  qed
qed

lemma merged_drain:
  "merged (drainRight (drainLeft f)) =
     merged f @ drop (leftIdx f) (left f) @ drop (rightIdx f) (right f)"
  by (simp add: drainRight_eq drainLeft_eq)

definition work_le :: "SortingState \<Rightarrow> SortingState \<Rightarrow> bool" where
  "work_le s' s \<longleftrightarrow>
     pendingWork s' < pendingWork s \<or>
     (pendingWork s' = pendingWork s \<and> topRemaining s' \<le> topRemaining s)"

lemma work_le_refl: "work_le s s" by (simp add: work_le_def)

lemma work_le_trans: "work_le a b \<Longrightarrow> work_le b c \<Longrightarrow> work_le a c"
  by (auto simp: work_le_def)

lemma rnp_work_le: "requestNextPair s = (p, s') \<Longrightarrow> work_le s' s"
proof (induction s arbitrary: p s' rule: rnp_induct)
  case (none s)
  then show ?case by (simp add: rnp_none work_le_refl)
next
  case (complete s st)
  have "work_le (s\<lparr>internal := Some (st\<lparr>stack := butlast (stack st),
          runs := runs st @ [merged (drainRight (drainLeft (last (stack st))))]\<rparr>)\<rparr>) s"
    using complete(1,2) by (cases "stack st" rule: rev_cases) (auto simp: work_le_def pendingWork_def)
  moreover have "work_le s' (s\<lparr>internal := Some (st\<lparr>stack := butlast (stack st),
          runs := runs st @ [merged (drainRight (drainLeft (last (stack st))))]\<rparr>)\<rparr>)"
    using complete.IH complete.prems rnp_complete[OF complete(1,2,3)] by simp
  ultimately show ?case by (rule work_le_trans[rotated])
next
  case (hit s st)
  let ?s1 = "s\<lparr>internal := Some (st\<lparr>stack := butlast (stack st) @
              [advanceFrame (last (stack st))
                 (the (cache_get (createComparisonCache (Some (cache s)))
                    (left (last (stack st)) ! leftIdx (last (stack st)))
                    (right (last (stack st)) ! rightIdx (last (stack st)))))]\<rparr>)\<rparr>"
  have "work_le ?s1 s"
    using hit(1,2,3) by (cases "stack st" rule: rev_cases)
      (auto simp: work_le_def pendingWork_def topRemaining_def remaining_def advanceFrame_def frameComplete_def)
  moreover have "work_le s' ?s1"
    using hit.IH hit.prems rnp_hit[OF hit(1,2,3,4)] by simp
  ultimately show ?case by (rule work_le_trans[rotated])
next
  case (ask s st)
  then show ?case by (simp add: rnp_ask work_le_refl)
next
  case (empty s st)
  then show ?case by (simp add: rnp_empty work_le_refl)
next
  case (finished s st r)
  then show ?case by (auto simp: rnp_done work_le_def pendingWork_def topRemaining_def)
next
  case (start s st l r rest)
  let ?s1 = "s\<lparr>internal := Some (st\<lparr>runs := rest,
              stack := [\<lparr>left = l, right = r, leftIdx = 0, rightIdx = 0, merged = []\<rparr>]\<rparr>)\<rparr>"
  have "work_le ?s1 s"
    using start(1,2,3) by (auto simp: work_le_def pendingWork_def)
  moreover have "work_le s' ?s1"
    using start.IH start.prems rnp_start[OF start(1,2,3)] by simp
  ultimately show ?case by (rule work_le_trans[rotated])
qed

text \<open>What a returned pair says about the state.\<close>

definition pending :: "SortingState \<Rightarrow> elem \<Rightarrow> elem \<Rightarrow> bool" where
  "pending s a b \<longleftrightarrow>
     (\<exists>st. internal s = Some st \<and> stack st \<noteq> [] \<and> \<not> frameComplete (last (stack st)) \<and>
        a = left (last (stack st)) ! leftIdx (last (stack st)) \<and>
        b = right (last (stack st)) ! rightIdx (last (stack st)) \<and>
        \<not> cache_has (createComparisonCache (Some (cache s))) a b)"

lemma rnp_pending: "requestNextPair s = (Some (a, b), s') \<Longrightarrow> pending s' a b"
proof (induction s arbitrary: s' rule: rnp_induct)
  case (none s)
  then show ?case by (simp add: rnp_none)
next
  case (complete s st)
  then show ?case using rnp_complete[OF complete(1,2,3)] by simp
next
  case (hit s st)
  then show ?case using rnp_hit[OF hit(1,2,3,4)] by simp
next
  case (ask s st)
  then show ?case by (auto simp: rnp_ask pending_def)
next
  case (empty s st)
  then show ?case by (simp add: rnp_empty)
next
  case (finished s st r)
  then show ?case by (simp add: rnp_done)
next
  case (start s st l r rest)
  then show ?case using rnp_start[OF start(1,2,3)] by simp
qed

lemma commit_pending_work:
  assumes "pending s a b" and "commitComparison s x y r = Inr s'"
  shows "pendingWork s' = pendingWork s \<and> topRemaining s' < topRemaining s"
proof -
  from assms(1) obtain st where st: "internal s = Some st" "stack st \<noteq> []"
    "\<not> frameComplete (last (stack st))" by (auto simp: pending_def)
  then show ?thesis using assms(2)
    by (cases "stack st" rule: rev_cases)
       (auto simp: commitComparison_def Let_def pendingWork_def topRemaining_def remaining_def
          advanceFrame_def frameComplete_def)
qed

section \<open>The protocol, orders and costs\<close>

text \<open>
  The protocol of the engine: request a pair, obtain the answer, commit it, and repeat
  until \<open>requestNextPair\<close> returns \<open>null\<close>. \<open>session answer state\<close> is that loop
  with the comparator \<open>answer\<close>; it returns the pairs that were shown to the comparator
  and the state at the end.
\<close>

function session ::
  "(elem \<Rightarrow> elem \<Rightarrow> CompareResult) \<Rightarrow> SortingState \<Rightarrow> (elem \<times> elem) list \<times> SortingState" where
  "session answer state =
     (case requestNextPair state of
        (None, state') \<Rightarrow> ([], state')
      | (Some (a, b), state') \<Rightarrow>
          (case commitComparison state' a b (answer a b) of
             Inl e \<Rightarrow> ([(a, b)], state')
           | Inr state'' \<Rightarrow>
               (let (asked, final) = session answer state'' in ((a, b) # asked, final))))"
  by pat_completeness auto
termination
proof (relation "inv_image (less_than <*lex*> less_than) (\<lambda>(answer, s). (pendingWork s, topRemaining s))",
    goal_cases)
  case 1
  show ?case by auto
next
  case (2 answer state x state' p a b state'')
  then have r: "requestNextPair state = (Some (a, b), state')" by simp
  from 2 have c: "commitComparison state' a b (answer a b) = Inr state''" by simp
  from rnp_work_le[OF r] commit_pending_work[OF rnp_pending[OF r] c]
  show ?case by (auto simp: work_le_def)
qed

declare session.simps [simp del]

text \<open>
  A run with the answers given as a list: each pair that \<open>requestNextPair\<close> returns is
  committed with the next answer; the run ends when no pair is returned or the answers
  are used up. It returns the pairs requested and the state reached.
\<close>

primrec replay :: "CompareResult list \<Rightarrow> SortingState \<Rightarrow> (elem \<times> elem) list \<times> SortingState" where
  "replay [] state =
     (case requestNextPair state of
        (None, state') \<Rightarrow> ([], state')
      | (Some (a, b), state') \<Rightarrow> ([(a, b)], state'))"
| "replay (r # rs) state =
     (case requestNextPair state of
        (None, state') \<Rightarrow> ([], state')
      | (Some (a, b), state') \<Rightarrow>
          (case commitComparison state' a b r of
             Inl e \<Rightarrow> ([(a, b)], state')
           | Inr state'' \<Rightarrow>
               (let (asked, final) = replay rs state'' in ((a, b) # asked, final))))"

text \<open>
  The states of a session that follows the protocol from \<open>s0\<close>: any number of requests,
  and after a request that returned a pair, a commit of that pair with any result.
\<close>

inductive protocol :: "SortingState \<Rightarrow> SortingState \<Rightarrow> bool" for s0 :: SortingState where
  start: "protocol s0 s0"
| request: "protocol s0 s \<Longrightarrow> requestNextPair s = (p, s') \<Longrightarrow> protocol s0 s'"
| answer: "protocol s0 s \<Longrightarrow> requestNextPair s = (Some (a, b), s') \<Longrightarrow>
     commitComparison s' a b r = Inr s'' \<Longrightarrow> protocol s0 s''"

text \<open>
  \<open>holds P s\<close>: every array of the state holds only values that satisfy \<open>P\<close>. A state is
  definite when no array of it holds \<open>undefined\<close>.
\<close>

definition frameHolds :: "(elem \<Rightarrow> bool) \<Rightarrow> MergeFrame \<Rightarrow> bool" where
  "frameHolds P f \<longleftrightarrow> list_all P (left f) \<and> list_all P (right f) \<and> list_all P (merged f)"

definition holds :: "(elem \<Rightarrow> bool) \<Rightarrow> SortingState \<Rightarrow> bool" where
  "holds P s \<longleftrightarrow>
     (case internal s of
        None \<Rightarrow> True
      | Some st \<Rightarrow> list_all (list_all P) (runs st) \<and> list_all (frameHolds P) (stack st) \<and>
                   list_all P (result st))"

definition definite :: "SortingState \<Rightarrow> bool" where
  "definite s \<longleftrightarrow> holds (\<lambda>x. x \<noteq> Undefined) s"

text \<open>
  \<open>reloaded s\<close> is the state \<open>s\<close> with \<open>null\<close> in every array slot that holds \<open>undefined\<close>:
  what a state becomes when it has been written and read back.
\<close>

definition reloadedElem :: "elem \<Rightarrow> elem" where
  "reloadedElem x = (case x of Undefined \<Rightarrow> Null | _ \<Rightarrow> x)"

definition reloadedFrame :: "MergeFrame \<Rightarrow> MergeFrame" where
  "reloadedFrame f =
     \<lparr>left = map reloadedElem (left f), right = map reloadedElem (right f),
      leftIdx = leftIdx f, rightIdx = rightIdx f, merged = map reloadedElem (merged f)\<rparr>"

definition reloadedInternal :: "MergeSortState \<Rightarrow> MergeSortState" where
  "reloadedInternal st =
     \<lparr>runs = map (map reloadedElem) (runs st), stack = map reloadedFrame (stack st),
      result = map reloadedElem (result st)\<rparr>"

definition reloaded :: "SortingState \<Rightarrow> SortingState" where
  "reloaded s = s\<lparr>internal := map_option reloadedInternal (internal s)\<rparr>"

text \<open>The values a frame and a state hold.\<close>

definition frameItems :: "MergeFrame \<Rightarrow> elem multiset" where
  "frameItems f =
     mset (merged f) + mset (drop (leftIdx f) (left f)) + mset (drop (rightIdx f) (right f))"

definition heldItems :: "MergeSortState \<Rightarrow> elem multiset" where
  "heldItems st = mset (concat (runs st)) + sum_list (map frameItems (stack st))"

text \<open>
  A total order on the items is given by the list \<open>target\<close> of the items from the most
  important to the least (for identifiers \<open>ids\<close>, the list \<open>map Str ids\<close>, as the arrays
  hold them); an item outranks another when it comes earlier in the list. A
  comparator is consistent with the order when it answers \<open>greater\<close> for a pair whose first
  item outranks the second and \<open>less\<close> for the other pairs of distinct items.
\<close>

definition position :: "elem list \<Rightarrow> elem \<Rightarrow> nat" where
  "position target x = length (takeWhile (\<lambda>y. y \<noteq> x) target)"

definition outranks :: "elem list \<Rightarrow> elem \<Rightarrow> elem \<Rightarrow> bool" where
  "outranks target a b \<longleftrightarrow> position target a < position target b"

definition consistent :: "elem list \<Rightarrow> (elem \<Rightarrow> elem \<Rightarrow> CompareResult) \<Rightarrow> bool" where
  "consistent target answer \<longleftrightarrow>
     (\<forall>a \<in> set target. \<forall>b \<in> set target. a \<noteq> b \<longrightarrow>
        answer a b = (if outranks target a b then Greater else Less))"

definition barFree :: "TaskId list \<Rightarrow> bool" where
  "barFree ids \<longleftrightarrow> (\<forall>x \<in> set ids. CHR ''|'' \<notin> set x)"

text \<open>The comparator of the order \<open>target\<close>.\<close>

definition byTarget :: "elem list \<Rightarrow> elem \<Rightarrow> elem \<Rightarrow> CompareResult" where
  "byTarget target a b = (if outranks target a b then Greater else Less)"

text \<open>
  \<open>precedes xs a b\<close>: \<open>a\<close> stands in the list \<open>xs\<close> at an earlier place than an occurrence
  of \<open>b\<close>. \<open>judged answer (a, b)\<close> is the pair in the order the answer puts it: the item
  emitted first, then the other. \<open>stateOrder s\<close> are the pairs a state has already put in
  order: within a run, and within a frame's output followed by what is left of either run.
\<close>

primrec precedes :: "'a list \<Rightarrow> 'a \<Rightarrow> 'a \<Rightarrow> bool" where
  "precedes [] a b = False"
| "precedes (x # xs) a b = ((x = a \<and> b \<in> set xs) \<or> precedes xs a b)"

definition judged :: "(elem \<Rightarrow> elem \<Rightarrow> CompareResult) \<Rightarrow> elem \<times> elem \<Rightarrow> elem \<times> elem" where
  "judged answer p = (if answer (fst p) (snd p) = Less then (snd p, fst p) else p)"

definition frameOrder :: "MergeFrame \<Rightarrow> (elem \<times> elem) set" where
  "frameOrder f =
     {(x, y). precedes (merged f @ drop (leftIdx f) (left f)) x y \<or>
              precedes (merged f @ drop (rightIdx f) (right f)) x y}"

definition stateOrder :: "SortingState \<Rightarrow> (elem \<times> elem) set" where
  "stateOrder s =
     (case internal s of
        None \<Rightarrow> {}
      | Some st \<Rightarrow> (\<Union>r \<in> set (runs st). {(x, y). precedes r x y}) \<union>
                   (\<Union>f \<in> set (stack st). frameOrder f))"

text \<open>
  The comparisons the queue of runs can still cost: merging runs of lengths \<open>x\<close> and \<open>y\<close>
  takes at most \<open>x + y - 1\<close> comparisons and puts a run of length \<open>x + y\<close> at the back.
\<close>

function queueCost :: "nat list \<Rightarrow> nat" where
  "queueCost [] = 0"
| "queueCost [x] = 0"
| "queueCost (x # y # rest) = (x + y - 1) + queueCost (rest @ [x + y])"
  by pat_completeness auto
termination
  by (relation "measure length") auto

text \<open>
  The comparisons a top-down merge sort of \<open>n\<close> items makes in the worst case: it sorts
  the two halves and merges them with at most \<open>n - 1\<close> comparisons.
\<close>

function msortWorst :: "nat \<Rightarrow> nat" where
  "msortWorst n = (if n \<le> 1 then 0 else msortWorst (n div 2) + msortWorst (n - n div 2) + (n - 1))"
  by pat_completeness auto
termination
  by (relation "measure id") auto

declare msortWorst.simps [simp del]

text \<open>
  The strict "greater than" relation the cache holds over a set of identifiers, as
  \<open>applyTransitiveClosure\<close> reads it.
\<close>

definition greaterEdges :: "CacheRecord \<Rightarrow> TaskId list \<Rightarrow> (TaskId \<times> TaskId) set" where
  "greaterEdges m ids =
     {(a, b). a \<in> set ids \<and> b \<in> set ids \<and> a \<noteq> b \<and>
              cache_get m (Str a) (Str b) = Some Greater}"

lemma elemAt_in [simp]: "i < length xs \<Longrightarrow> elemAt xs i = xs ! i"
  by (simp add: elemAt_def)

lemma rnp_invariant:
  fixes s :: SortingState
  assumes "P s"
    and "\<And>s st. P s \<Longrightarrow> internal s = Some st \<Longrightarrow> stack st \<noteq> [] \<Longrightarrow>
          frameComplete (last (stack st)) \<Longrightarrow>
          P (s\<lparr>internal := Some (st\<lparr>stack := butlast (stack st),
              runs := runs st @ [merged (drainRight (drainLeft (last (stack st))))]\<rparr>)\<rparr>)"
    and "\<And>s st. P s \<Longrightarrow> internal s = Some st \<Longrightarrow> stack st \<noteq> [] \<Longrightarrow>
          \<not> frameComplete (last (stack st)) \<Longrightarrow>
          cache_has (createComparisonCache (Some (cache s)))
            (left (last (stack st)) ! leftIdx (last (stack st)))
            (right (last (stack st)) ! rightIdx (last (stack st))) \<Longrightarrow>
          P (s\<lparr>internal := Some (st\<lparr>stack := butlast (stack st) @
              [advanceFrame (last (stack st))
                 (the (cache_get (createComparisonCache (Some (cache s)))
                    (left (last (stack st)) ! leftIdx (last (stack st)))
                    (right (last (stack st)) ! rightIdx (last (stack st)))))]\<rparr>)\<rparr>)"
    and "\<And>s st r. P s \<Longrightarrow> internal s = Some st \<Longrightarrow> stack st = [] \<Longrightarrow> runs st = [r] \<Longrightarrow>
          P (s\<lparr>internal := Some (st\<lparr>result := r\<rparr>)\<rparr>)"
    and "\<And>s st l r rest. P s \<Longrightarrow> internal s = Some st \<Longrightarrow> stack st = [] \<Longrightarrow>
          runs st = l # r # rest \<Longrightarrow>
          P (s\<lparr>internal := Some (st\<lparr>runs := rest,
              stack := [\<lparr>left = l, right = r, leftIdx = 0, rightIdx = 0, merged = []\<rparr>]\<rparr>)\<rparr>)"
  shows "P (snd (requestNextPair s))"
  using assms(1)
proof (induction s rule: rnp_induct)
  case (none s)
  then show ?case by (simp add: rnp_none)
next
  case (complete s st)
  show ?case
    unfolding rnp_complete[OF complete(1,2,3)]
    by (rule complete.IH, rule assms(2)[OF complete.prems complete(1,2,3)])
next
  case (hit s st)
  show ?case
    unfolding rnp_hit[OF hit(1,2,3,4)]
    by (rule hit.IH, rule assms(3)[OF hit.prems hit(1,2,3,4)])
next
  case (ask s st)
  then show ?case by (simp add: rnp_ask)
next
  case (empty s st)
  then show ?case by (simp add: rnp_empty)
next
  case (finished s st r)
  then show ?case using assms(4)[OF finished(4,1,2,3)] by (simp add: rnp_done)
next
  case (start s st l r rest)
  show ?case
    unfolding rnp_start[OF start(1,2,3)]
    by (rule start.IH, rule assms(5)[OF start.prems start(1,2,3)])
qed

text \<open>What \<open>requestNextPair\<close> returns when it returns no pair.\<close>

lemma rnp_None_shape:
  "requestNextPair s = (None, s') \<Longrightarrow>
     internal s' = None \<or>
     (\<exists>st. internal s' = Some st \<and> stack st = [] \<and> (runs st = [] \<or> runs st = [result st]))"
proof (induction s arbitrary: s' rule: rnp_induct)
  case (none s)
  then show ?case by (simp add: rnp_none)
next
  case (complete s st)
  then show ?case using rnp_complete[OF complete(1,2,3)] by simp
next
  case (hit s st)
  then show ?case using rnp_hit[OF hit(1,2,3,4)] by simp
next
  case (ask s st)
  then show ?case by (simp add: rnp_ask)
next
  case (empty s st)
  then show ?case by (auto simp: rnp_empty)
next
  case (finished s st r)
  then show ?case by (auto simp: rnp_done)
next
  case (start s st l r rest)
  then show ?case using rnp_start[OF start(1,2,3)] by simp
qed

lemma rnp_cache: "cache (snd (requestNextPair s)) = cache s"
  by (rule rnp_invariant[where P="\<lambda>t. cache t = cache s"]) simp_all

lemma rnp_asked: "comparisonsAsked (snd (requestNextPair s)) = comparisonsAsked s"
  by (rule rnp_invariant[where P="\<lambda>t. comparisonsAsked t = comparisonsAsked s"]) simp_all

definition conserved :: "elem multiset \<Rightarrow> SortingState \<Rightarrow> bool" where
  "conserved items s \<longleftrightarrow>
     (\<exists>st. internal s = Some st \<and> heldItems st = items \<and>
        (result st = [] \<or> (stack st = [] \<and> runs st = [result st])))"

lemma frameItems_drain:
  "mset (merged (drainRight (drainLeft f))) = frameItems f"
  by (simp add: merged_drain frameItems_def)

lemma frameItems_advance:
  "\<not> frameComplete f \<Longrightarrow> frameItems (advanceFrame f r) = frameItems f"
  by (auto simp: frameItems_def advanceFrame_def frameComplete_def not_le
      Cons_nth_drop_Suc[symmetric])

lemma conserved_request: "conserved items s \<Longrightarrow> conserved items (snd (requestNextPair s))"
proof (rule rnp_invariant[where P="conserved items"], goal_cases)
  case 1
  then show ?case .
next
  case (2 s st)
  then show ?case
    by (cases "stack st" rule: rev_cases)
       (auto simp: conserved_def heldItems_def frameItems_drain)
next
  case (3 s st)
  then show ?case
    by (cases "stack st" rule: rev_cases)
       (auto simp: conserved_def heldItems_def frameItems_advance)
next
  case (4 s st r)
  then show ?case by (auto simp: conserved_def heldItems_def)
next
  case (5 s st l r rest)
  then show ?case by (auto simp: conserved_def heldItems_def frameItems_def)
qed

lemma conserved_commit:
  assumes "conserved items s" and "pending s a b" and "commitComparison s x y r = Inr s'"
  shows "conserved items s'"
proof -
  from assms(1) obtain st where st: "internal s = Some st" "heldItems st = items"
    "result st = [] \<or> (stack st = [] \<and> runs st = [result st])"
    by (auto simp: conserved_def)
  from assms(2) st obtain fs f where f: "stack st = fs @ [f]" and nc: "\<not> frameComplete f"
    by (cases "stack st" rule: rev_cases) (auto simp: pending_def)
  from frameItems_advance[OF nc, of r] f st assms(3) show ?thesis
    by (auto simp: commitComparison_def Let_def conserved_def heldItems_def)
qed

lemma conserved_createSession: "conserved (mset (map Str ids)) (createSession ids c)"
proof -
  have "mset (concat (map (\<lambda>x. [Str x]) ids)) = mset (map Str ids)" by (induction ids) auto
  then show ?thesis by (simp add: conserved_def createSession_def heldItems_def)
qed

lemma protocol_conserved:
  "protocol s0 s \<Longrightarrow> conserved items s0 \<Longrightarrow> conserved items s"
proof (induction rule: protocol.induct)
  case start
  then show ?case .
next
  case (request s p s')
  then show ?case using conserved_request[of items s] by simp
next
  case (answer s a b s' r s'')
  then have "conserved items s'" using conserved_request[of items s] by simp
  then show ?case using rnp_pending[OF answer.hyps(2)] answer.hyps(3) by (rule conserved_commit)
qed

lemma conserved_finalize:
  assumes "conserved items s" and "requestNextPair s = (None, s')"
  shows "mset (finalize s') = items"
proof -
  from conserved_request[OF assms(1)] assms(2) have c: "conserved items s'" by simp
  from rnp_None_shape[OF assms(2)] c show ?thesis
    by (auto simp: conserved_def finalize_def heldItems_def)
qed

definition keeps :: "CacheRecord \<Rightarrow> SortingState \<Rightarrow> bool" where
  "keeps c0 s \<longleftrightarrow> (\<forall>a b. cache_has c0 a b \<longrightarrow> cache_has (cache s) a b)"

lemma keeps_commit:
  assumes "keeps c0 s" and "commitComparison s a b r = Inr s'"
  shows "keeps c0 s'"
proof -
  from assms(2) have "cache s' = toRecord (cache_set (cache s) a b r)"
    by (auto simp: commitComparison_def Let_def createComparisonCache_Some
        split: option.splits if_splits)
  with assms(1) show ?thesis
    by (auto simp: keeps_def cache_has_def cache_set_def lookup_update lookup_toRecord
        key_not_proto)
qed

lemma protocol_keeps: "protocol s0 s \<Longrightarrow> keeps c0 s0 \<Longrightarrow> keeps c0 s"
proof (induction rule: protocol.induct)
  case start
  then show ?case .
next
  case (request s p s')
  then show ?case using rnp_cache[of s] by (simp add: keeps_def)
next
  case (answer s a b s' r s'')
  then have "keeps c0 s'" using rnp_cache[of s] by (simp add: keeps_def)
  then show ?case using answer.hyps(3) by (rule keeps_commit)
qed

lemma asked_pair_not_cached:
  assumes "requestNextPair s = (Some (a, b), s')"
  shows "\<not> cache_has (cache s) a b"
proof -
  from rnp_pending[OF assms] have "\<not> cache_has (cache s') a b"
    by (auto simp: pending_def createComparisonCache_Some)
  moreover have "cache s' = cache s" using rnp_cache[of s] assms by simp
  ultimately show ?thesis by simp
qed

lemma position_nth: "distinct xs \<Longrightarrow> i < length xs \<Longrightarrow> position xs (xs ! i) = i"
proof -
  assume d: "distinct xs" and i: "i < length xs"
  have "takeWhile (\<lambda>y. y \<noteq> xs ! i) xs = take i xs"
    by (rule takeWhile_eq_take_P_nth) (use d i in \<open>auto simp: nth_eq_iff_index_eq\<close>)
  then show ?thesis using i by (simp add: position_def)
qed

lemma position_inj: "x \<in> set xs \<Longrightarrow> y \<in> set xs \<Longrightarrow> position xs x = position xs y \<Longrightarrow> x = y"
proof -
  assume x: "x \<in> set xs" and y: "y \<in> set xs" and e: "position xs x = position xs y"
  have n: "z \<in> set xs \<Longrightarrow> xs ! position xs z = z" for z
    by (induction xs) (auto simp: position_def)
  from n[OF x] n[OF y] e show ?thesis by metis
qed

lemma outranks_total:
  "a \<in> set target \<Longrightarrow> b \<in> set target \<Longrightarrow> a \<noteq> b \<Longrightarrow> outranks target a b \<or> outranks target b a"
proof -
  assume "a \<in> set target" "b \<in> set target" "a \<noteq> b"
  then have "position target a \<noteq> position target b" using position_inj by blast
  then show ?thesis unfolding outranks_def by arith
qed

lemma outranks_asym: "outranks target a b \<Longrightarrow> \<not> outranks target b a"
  by (simp add: outranks_def)

lemma outranks_trans: "outranks target a b \<Longrightarrow> outranks target b c \<Longrightarrow> outranks target a c"
  by (simp add: outranks_def)

lemma sorted_target: "distinct target \<Longrightarrow> sorted_wrt (outranks target) target"
  by (simp add: sorted_wrt_iff_nth_less outranks_def position_nth)

lemma sorted_outranks_unique:
  assumes "distinct target" and "sorted_wrt (outranks target) xs" and "mset xs = mset target"
  shows "xs = target"
proof -
  have s: "set xs = set target" using assms(3) by (rule mset_eq_setD)
  have "sorted_wrt (<) (map (position target) xs)"
    using assms(2) by (simp add: sorted_wrt_map outranks_def[abs_def])
  moreover have "sorted_wrt (<) (map (position target) target)"
    using sorted_target[OF assms(1)] by (simp add: sorted_wrt_map outranks_def[abs_def])
  ultimately have "map (position target) xs = map (position target) target"
    using s by (intro sorted_distinct_set_unique) (auto simp: strict_sorted_iff)
  moreover have "inj_on (position target) (set xs \<union> set target)"
    using s by (auto simp: inj_on_def intro: position_inj)
  ultimately show ?thesis by (simp add: inj_on_map_eq_map)
qed

text \<open>Keys of pairs of identifiers without the separator determine the pair.\<close>

lemma bar_split:
  assumes "CHR ''|'' \<notin> set x" and "CHR ''|'' \<notin> set x'" and "x @ ''|'' @ y = x' @ ''|'' @ y'"
  shows "x = x' \<and> y = y'"
proof -
  have "takeWhile (\<lambda>c. c \<noteq> CHR ''|'') (x @ ''|'' @ y) = x"
    using assms(1) by (subst takeWhile_append2) auto
  moreover have "takeWhile (\<lambda>c. c \<noteq> CHR ''|'') (x' @ ''|'' @ y') = x'"
    using assms(2) by (subst takeWhile_append2) auto
  ultimately have "x = x'" using assms(3) by simp
  with assms(3) show ?thesis by simp
qed

lemma createCacheKey_inj:
  assumes "CHR ''|'' \<notin> set a" "CHR ''|'' \<notin> set b" "CHR ''|'' \<notin> set c" "CHR ''|'' \<notin> set d"
    and "createCacheKey (Str a) (Str b) = createCacheKey (Str c) (Str d)"
  shows "(a = c \<and> b = d) \<or> (a = d \<and> b = c)"
  using assms(5) bar_split[of a c b d] bar_split[of a d b c] bar_split[of b c a d]
    bar_split[of b d a c] assms(1-4)
  by (auto simp: createCacheKey_Str split: if_splits)

definition okFrame :: "(elem \<Rightarrow> elem \<Rightarrow> bool) \<Rightarrow> MergeFrame \<Rightarrow> bool" where
  "okFrame P f \<longleftrightarrow>
     leftIdx f \<le> length (left f) \<and> rightIdx f \<le> length (right f) \<and>
     length (merged f) = leftIdx f + rightIdx f \<and>
     sorted_wrt P (merged f @ drop (leftIdx f) (left f)) \<and>
     sorted_wrt P (merged f @ drop (rightIdx f) (right f))"

definition plainItems :: "elem list \<Rightarrow> bool" where
  "plainItems items \<longleftrightarrow> (\<forall>x \<in> set items. \<exists>s. x = Str s \<and> CHR ''|'' \<notin> set s)"

definition cacheSound :: "elem list \<Rightarrow> CacheRecord \<Rightarrow> bool" where
  "cacheSound target c \<longleftrightarrow>
     (\<forall>a \<in> set target. \<forall>b \<in> set target. a \<noteq> b \<longrightarrow>
        cache_get c a b = None \<or>
        cache_get c a b = Some (if outranks target a b then Greater else Less))"

definition shaped :: "(elem \<Rightarrow> elem \<Rightarrow> bool) \<Rightarrow> MergeSortState \<Rightarrow> bool" where
  "shaped P st \<longleftrightarrow>
     length (stack st) \<le> 1 \<and>
     (\<forall>r \<in> set (runs st). sorted_wrt P r) \<and>
     (\<forall>f \<in> set (stack st). okFrame P f)"

definition sorting :: "elem list \<Rightarrow> SortingState \<Rightarrow> bool" where
  "sorting target s \<longleftrightarrow>
     conserved (mset target) s \<and> cacheSound target (cache s) \<and>
     (\<exists>st. internal s = Some st \<and> shaped (outranks target) st)"

lemma okFrame_new:
  "sorted_wrt P l \<Longrightarrow> sorted_wrt P r \<Longrightarrow>
   okFrame P \<lparr>left = l, right = r, leftIdx = 0, rightIdx = 0, merged = []\<rparr>"
  by (simp add: okFrame_def)

lemma okFrame_drain:
  assumes "okFrame P f" and "frameComplete f"
  shows "sorted_wrt P (merged (drainRight (drainLeft f)))"
proof -
  from assms have "drop (leftIdx f) (left f) = [] \<or> drop (rightIdx f) (right f) = []"
    by (auto simp: frameComplete_def)
  with assms(1) show ?thesis by (auto simp: merged_drain okFrame_def)
qed

lemma okFrame_advance_left:
  assumes ok: "okFrame P f" and nc: "\<not> frameComplete f"
    and tr: "\<And>x y z. P x y \<Longrightarrow> P y z \<Longrightarrow> P x z"
    and ab: "P (left f ! leftIdx f) (right f ! rightIdx f)"
    and r: "r = Greater \<or> r = Equal"
  shows "okFrame P (advanceFrame f r)"
proof -
  let ?a = "left f ! leftIdx f" and ?b = "right f ! rightIdx f"
  from nc have li: "leftIdx f < length (left f)" and ri: "rightIdx f < length (right f)"
    by (auto simp: frameComplete_def)
  have dl: "drop (leftIdx f) (left f) = ?a # drop (Suc (leftIdx f)) (left f)"
    using li by (simp add: Cons_nth_drop_Suc)
  have dr: "drop (rightIdx f) (right f) = ?b # drop (Suc (rightIdx f)) (right f)"
    using ri by (simp add: Cons_nth_drop_Suc)
  from ok have sl: "sorted_wrt P (merged f @ ?a # drop (Suc (leftIdx f)) (left f))"
    and sr: "sorted_wrt P (merged f @ ?b # drop (Suc (rightIdx f)) (right f))"
    by (simp_all add: okFrame_def dl[symmetric] dr[symmetric])
  have "\<forall>y \<in> set (drop (rightIdx f) (right f)). P ?a y"
    using sr ab tr by (auto simp: dr sorted_wrt_append)
  moreover have "\<forall>x \<in> set (merged f). P x ?a"
    using sl by (auto simp: sorted_wrt_append)
  ultimately have "sorted_wrt P ((merged f @ [?a]) @ drop (rightIdx f) (right f))"
    using ok by (auto simp: okFrame_def sorted_wrt_append)
  moreover have "sorted_wrt P ((merged f @ [?a]) @ drop (Suc (leftIdx f)) (left f))"
    using sl by simp
  ultimately show ?thesis using ok li r
    by (auto simp: okFrame_def advanceFrame_def)
qed

lemma okFrame_advance_right:
  assumes ok: "okFrame P f" and nc: "\<not> frameComplete f"
    and tr: "\<And>x y z. P x y \<Longrightarrow> P y z \<Longrightarrow> P x z"
    and ba: "P (right f ! rightIdx f) (left f ! leftIdx f)"
  shows "okFrame P (advanceFrame f Less)"
proof -
  let ?a = "left f ! leftIdx f" and ?b = "right f ! rightIdx f"
  from nc have li: "leftIdx f < length (left f)" and ri: "rightIdx f < length (right f)"
    by (auto simp: frameComplete_def)
  have dl: "drop (leftIdx f) (left f) = ?a # drop (Suc (leftIdx f)) (left f)"
    using li by (simp add: Cons_nth_drop_Suc)
  have dr: "drop (rightIdx f) (right f) = ?b # drop (Suc (rightIdx f)) (right f)"
    using ri by (simp add: Cons_nth_drop_Suc)
  from ok have sl: "sorted_wrt P (merged f @ ?a # drop (Suc (leftIdx f)) (left f))"
    and sr: "sorted_wrt P (merged f @ ?b # drop (Suc (rightIdx f)) (right f))"
    by (simp_all add: okFrame_def dl[symmetric] dr[symmetric])
  have "\<forall>y \<in> set (drop (leftIdx f) (left f)). P ?b y"
    using sl ba tr by (auto simp: dl sorted_wrt_append)
  moreover have "\<forall>x \<in> set (merged f). P x ?b"
    using sr by (auto simp: sorted_wrt_append)
  ultimately have "sorted_wrt P ((merged f @ [?b]) @ drop (leftIdx f) (left f))"
    using ok by (auto simp: okFrame_def sorted_wrt_append)
  moreover have "sorted_wrt P ((merged f @ [?b]) @ drop (Suc (rightIdx f)) (right f))"
    using sr by simp
  ultimately show ?thesis using ok ri
    by (auto simp: okFrame_def advanceFrame_def)
qed

text \<open>The two items a frame compares next are different items of the input.\<close>

lemma frame_heads:
  assumes nc: "\<not> frameComplete f" and sub: "frameItems f \<subseteq># mset target" and d: "distinct target"
  shows "left f ! leftIdx f \<in> set target \<and> right f ! rightIdx f \<in> set target \<and>
         left f ! leftIdx f \<noteq> right f ! rightIdx f"
proof -
  let ?a = "left f ! leftIdx f" and ?b = "right f ! rightIdx f"
  from nc have li: "leftIdx f < length (left f)" and ri: "rightIdx f < length (right f)"
    by (auto simp: frameComplete_def)
  have dl: "drop (leftIdx f) (left f) = ?a # drop (Suc (leftIdx f)) (left f)"
    using li by (simp add: Cons_nth_drop_Suc)
  have dr: "drop (rightIdx f) (right f) = ?b # drop (Suc (rightIdx f)) (right f)"
    using ri by (simp add: Cons_nth_drop_Suc)
  have "{#?a, ?b#} \<subseteq># frameItems f"
    by (simp add: frameItems_def dl dr)
  then have ab: "{#?a, ?b#} \<subseteq># mset target" using sub by (rule subset_mset.order_trans)
  then have "?a \<in># mset target" "?b \<in># mset target"
    by (auto dest: mset_subset_eqD)
  moreover have "?a \<noteq> ?b"
  proof
    assume e: "?a = ?b"
    from ab have "count {#?a, ?b#} ?a \<le> count (mset target) ?a"
      by (rule mset_subset_eq_count)
    with e have "2 \<le> count (mset target) ?a" by simp
    moreover from d have "count (mset target) ?a \<le> 1"
      by (simp add: distinct_count_atmost_1)
    ultimately show False by simp
  qed
  ultimately show ?thesis by simp
qed

lemma cacheSound_toRecord: "cacheSound target (toRecord c) = cacheSound target c"
  by (simp add: cacheSound_def)

lemma cacheSound_set:
  assumes cs: "cacheSound target c" and bf: "plainItems target"
    and a: "a \<in> set target" and b: "b \<in> set target" and ne: "a \<noteq> b"
  shows "cacheSound target (cache_set c a b (if outranks target a b then Greater else Less))"
  unfolding cacheSound_def
proof (intro ballI impI)
  fix x y assume x: "x \<in> set target" and y: "y \<in> set target" and xy: "x \<noteq> y"
  let ?v = "if outranks target a b then Greater else Less"
  from bf a obtain a' where a': "a = Str a'" "CHR ''|'' \<notin> set a'" by (auto simp: plainItems_def)
  from bf b obtain b' where b': "b = Str b'" "CHR ''|'' \<notin> set b'" by (auto simp: plainItems_def)
  from bf x obtain x' where x': "x = Str x'" "CHR ''|'' \<notin> set x'" by (auto simp: plainItems_def)
  from bf y obtain y' where y': "y = Str y'" "CHR ''|'' \<notin> set y'" by (auto simp: plainItems_def)
  from ne a' b' have ne': "a' \<noteq> b'" by simp
  show "cache_get (cache_set c a b ?v) x y = None \<or>
        cache_get (cache_set c a b ?v) x y = Some (if outranks target x y then Greater else Less)"
  proof (cases "createCacheKey x y = createCacheKey a b")
    case True
    then have "createCacheKey (Str x') (Str y') = createCacheKey (Str a') (Str b')"
      by (simp add: a' b' x' y')
    from createCacheKey_inj[OF x'(2) y'(2) a'(2) b'(2) this]
    have "(x = a \<and> y = b) \<or> (x = b \<and> y = a)" by (auto simp: a' b' x' y')
    then show ?thesis
    proof
      assume "x = a \<and> y = b"
      then show ?thesis by (simp add: cache_get_set_same)
    next
      assume e: "x = b \<and> y = a"
      have "outranks target b a \<longleftrightarrow> \<not> outranks target a b"
        using outranks_total[OF a b ne] outranks_asym[of target a b] by auto
      then show ?thesis using e ne' cache_get_set_swap[OF ne', of c ?v]
        by (simp add: a' b')
    qed
  next
    case False
    then have "cache_get (cache_set c a b ?v) x y = cache_get c x y"
      by (simp add: cache_get_def cache_set_def lookup_update)
    with cs x y xy show ?thesis by (simp add: cacheSound_def)
  qed
qed

lemma session_induct [case_names step]:
  assumes "\<And>s. (\<And>a b s' s''. requestNextPair s = (Some (a, b), s') \<Longrightarrow>
              commitComparison s' a b (answer a b) = Inr s'' \<Longrightarrow> P s'') \<Longrightarrow> P s"
  shows "P s"
proof -
  have "ans = answer \<longrightarrow> P s" for ans
  proof (induction ans s rule: session.induct)
    case (1 ans state)
    show ?case
    proof
      assume e: "ans = answer"
      show "P state"
      proof (rule assms)
        fix a b s' s''
        assume r: "requestNextPair state = (Some (a, b), s')"
          and c: "commitComparison s' a b (answer a b) = Inr s''"
        from "1.IH"[of "Some (a, b)" s' "(a, b)" a b s''] r c e show "P s''" by simp
      qed
    qed
  qed
  then show ?thesis by simp
qed

lemma session_None: "requestNextPair s = (None, s') \<Longrightarrow> session answer s = ([], s')"
  by (subst session.simps) simp

lemma session_Some:
  "requestNextPair s = (Some (a, b), s') \<Longrightarrow> commitComparison s' a b (answer a b) = Inr s'' \<Longrightarrow>
   session answer s = ((a, b) # fst (session answer s''), snd (session answer s''))"
  by (subst session.simps) (simp add: case_prod_unfold Let_def)

lemma sorting_request:
  assumes d: "distinct target" and "sorting target s"
  shows "sorting target (snd (requestNextPair s))"
proof (rule rnp_invariant[where P="sorting target"], goal_cases)
  case 1
  show ?case by fact
next
  case (2 s st)
  then obtain f where f: "stack st = [f]"
    by (cases "stack st" rule: rev_cases) (auto simp: sorting_def shaped_def)
  with 2 have ok: "okFrame (outranks target) f" by (auto simp: sorting_def shaped_def)
  from 2 f have "sorted_wrt (outranks target) (merged (drainRight (drainLeft f)))"
    by (intro okFrame_drain[OF ok]) simp
  with 2 f show ?case
    by (auto simp: sorting_def shaped_def conserved_def heldItems_def frameItems_drain)
next
  case (3 s st)
  then obtain f where f: "stack st = [f]"
    by (cases "stack st" rule: rev_cases) (auto simp: sorting_def shaped_def)
  let ?a = "left f ! leftIdx f" and ?b = "right f ! rightIdx f"
  from 3 f have ok: "okFrame (outranks target) f" and nc: "\<not> frameComplete f"
    and held: "heldItems st = mset target" and cs: "cacheSound target (cache s)"
    by (auto simp: sorting_def shaped_def conserved_def)
  from held f have "frameItems f \<subseteq># mset target"
    by (metis heldItems_def list.simps(8,9) mset_subset_eq_add_right sum_list.Cons sum_list.Nil
        add.right_neutral)
  from frame_heads[OF nc this d] have a: "?a \<in> set target" and b: "?b \<in> set target"
    and ne: "?a \<noteq> ?b" by simp_all
  from 3(5) f have "cache_get (cache s) ?a ?b \<noteq> None"
    by (simp add: createComparisonCache_Some cache_has_get)
  with cs[unfolded cacheSound_def, rule_format, OF a b ne]
  have g: "cache_get (cache s) ?a ?b =
      Some (if outranks target ?a ?b then Greater else Less)"
    by blast
  have "okFrame (outranks target)
      (advanceFrame f (if outranks target ?a ?b then Greater else Less))"
  proof (cases "outranks target ?a ?b")
    case True
    then show ?thesis
      using okFrame_advance_left[OF ok nc outranks_trans, where r=Greater] by simp
  next
    case False
    with outranks_total[OF a b ne] have "outranks target ?b ?a" by simp
    with False show ?thesis
      using okFrame_advance_right[OF ok nc outranks_trans] by simp
  qed
  with 3 f g nc show ?case
    by (auto simp: sorting_def shaped_def conserved_def heldItems_def frameItems_advance
        createComparisonCache_Some)
next
  case (4 s st r)
  then show ?case by (auto simp: sorting_def shaped_def conserved_def heldItems_def)
next
  case (5 s st l r rest)
  let ?s' = "s\<lparr>internal := Some (st\<lparr>runs := rest,
      stack := [\<lparr>left = l, right = r, leftIdx = 0, rightIdx = 0, merged = []\<rparr>]\<rparr>)\<rparr>"
  have "heldItems (st\<lparr>runs := rest,
      stack := [\<lparr>left = l, right = r, leftIdx = 0, rightIdx = 0, merged = []\<rparr>]\<rparr>) = heldItems st"
    using 5(3,4) by (simp add: heldItems_def frameItems_def ac_simps)
  moreover from 5 have "conserved (mset target) s" by (simp add: sorting_def)
  ultimately have "conserved (mset target) ?s'"
    using 5(2,3,4) by (auto simp: conserved_def)
  moreover from 5 have "cacheSound target (cache ?s')" by (simp add: sorting_def)
  moreover from 5 have "shaped (outranks target) (st\<lparr>runs := rest,
      stack := [\<lparr>left = l, right = r, leftIdx = 0, rightIdx = 0, merged = []\<rparr>]\<rparr>)"
    by (auto simp: sorting_def shaped_def okFrame_new)
  ultimately show ?case by (simp add: sorting_def)
qed

lemma sorting_commit:
  assumes d: "distinct target" and bf: "plainItems target" and co: "consistent target answer"
    and so: "sorting target s" and pe: "pending s a b"
  shows "\<exists>s'. commitComparison s a b (answer a b) = Inr s' \<and> sorting target s'"
proof -
  from pe obtain st where st: "internal s = Some st" "stack st \<noteq> []"
    and nc: "\<not> frameComplete (last (stack st))"
    and ab: "a = left (last (stack st)) ! leftIdx (last (stack st))"
      "b = right (last (stack st)) ! rightIdx (last (stack st))"
    by (auto simp: pending_def)
  from so st obtain f where f: "stack st = [f]"
    by (cases "stack st" rule: rev_cases) (auto simp: sorting_def shaped_def)
  from so st f have ok: "okFrame (outranks target) f"
    and held: "heldItems st = mset target" and cs: "cacheSound target (cache s)"
    by (auto simp: sorting_def shaped_def conserved_def)
  from nc f have nc: "\<not> frameComplete f" by simp
  from held f have "frameItems f \<subseteq># mset target"
    by (metis heldItems_def list.simps(8,9) mset_subset_eq_add_right sum_list.Cons sum_list.Nil
        add.right_neutral)
  from frame_heads[OF nc this d] ab f have a: "a \<in> set target" and b: "b \<in> set target"
    and ne: "a \<noteq> b" by simp_all
  let ?v = "if outranks target a b then Greater else Less"
  from co a b ne have v: "answer a b = ?v" by (simp add: consistent_def)
  let ?s' = "s\<lparr>comparisonsAsked := comparisonsAsked s + 1,
               cache := toRecord (cache_set (cache s) a b ?v),
               internal := Some (st\<lparr>stack := [advanceFrame f ?v]\<rparr>)\<rparr>"
  have c: "commitComparison s a b (answer a b) = Inr ?s'"
    using st f by (simp add: commitComparison_def v createComparisonCache_Some Let_def)
  have okf: "okFrame (outranks target) (advanceFrame f ?v)"
  proof (cases "outranks target a b")
    case True
    then show ?thesis
      using okFrame_advance_left[OF ok nc outranks_trans, where r=Greater] ab f by simp
  next
    case False
    with outranks_total[OF a b ne] have "outranks target b a" by simp
    with False show ?thesis
      using okFrame_advance_right[OF ok nc outranks_trans] ab f by simp
  qed
  have "conserved (mset target) ?s'"
    using so pe c by (auto simp: sorting_def intro: conserved_commit)
  moreover have "cacheSound target (cache ?s')"
    using cacheSound_set[OF cs bf a b ne] by (simp add: cacheSound_toRecord)
  moreover have "shaped (outranks target) (st\<lparr>stack := [advanceFrame f ?v]\<rparr>)"
    using so st f okf by (auto simp: sorting_def shaped_def)
  ultimately have "sorting target ?s'" by (simp add: sorting_def)
  with c show ?thesis by blast
qed

lemma finalize_sorted:
  assumes d: "distinct target" and so: "sorting target s" and r: "requestNextPair s = (None, s')"
  shows "finalize s' = target"
proof -
  from sorting_request[OF d so] r have so': "sorting target s'" by simp
  from so have "conserved (mset target) s" by (simp add: sorting_def)
  from conserved_finalize[OF this r] have m: "mset (finalize s') = mset target" .
  from rnp_None_shape[OF r] so' have "sorted_wrt (outranks target) (finalize s')"
    by (auto simp: sorting_def shaped_def conserved_def finalize_def)
  from sorted_outranks_unique[OF d this m] show ?thesis .
qed

lemma session_sorts:
  assumes d: "distinct target" and bf: "plainItems target" and co: "consistent target answer"
  shows "sorting target s \<Longrightarrow>
         finalize (snd (session answer s)) = target \<and>
         fst (requestNextPair (snd (session answer s))) = None"
proof (induction s rule: session_induct[where answer=answer])
  case (step s)
  obtain p s' where r: "requestNextPair s = (p, s')" by (cases "requestNextPair s")
  show ?case
  proof (cases p)
    case None
    with r have r': "requestNextPair s = (None, s')" by simp
    from rnp_None_shape[OF r'] have "fst (requestNextPair s') = None"
      by (auto simp: rnp_none rnp_empty rnp_done)
    with finalize_sorted[OF d step.prems r'] show ?thesis
      by (simp add: session_None[OF r'])
  next
    case (Some ab)
    obtain a b where ab: "ab = (a, b)" by (cases ab)
    with Some r have r': "requestNextPair s = (Some (a, b), s')" by simp
    from sorting_request[OF d step.prems] r' have so': "sorting target s'" by simp
    from sorting_commit[OF d bf co so' rnp_pending[OF r']]
    obtain s'' where c: "commitComparison s' a b (answer a b) = Inr s''"
      and so'': "sorting target s''" by blast
    from step.IH[OF r' c so''] show ?thesis
      by (simp add: session_Some[where answer=answer, OF r' c])
  qed
qed

lemma sorting_createSession:
  "mset (map Str ids) = mset target \<Longrightarrow> sorting target (createSession ids None)"
  using conserved_createSession[of ids None]
  by (auto simp: sorting_def shaped_def cacheSound_def createSession_def
      createComparisonCache_None cache_get_def)

definition framePotential :: "MergeFrame \<Rightarrow> nat" where
  "framePotential f = (if frameComplete f then 0 else remaining f - 1)"

definition potential :: "MergeSortState \<Rightarrow> nat" where
  "potential st =
     (case stack st of
        [] \<Rightarrow> queueCost (map length (runs st))
      | f # _ \<Rightarrow> framePotential f +
                 queueCost (map length (runs st) @ [length (left f) + length (right f)]))"

definition framed :: "MergeSortState \<Rightarrow> bool" where
  "framed st \<longleftrightarrow>
     length (stack st) \<le> 1 \<and>
     (\<forall>f \<in> set (stack st). leftIdx f \<le> length (left f) \<and> rightIdx f \<le> length (right f) \<and>
        length (merged f) = leftIdx f + rightIdx f)"

definition bounded :: "nat \<Rightarrow> SortingState \<Rightarrow> bool" where
  "bounded n s \<longleftrightarrow> (\<exists>st. internal s = Some st \<and> framed st \<and> potential st \<le> n)"

lemma advanceFrame_runs [simp]:
  "left (advanceFrame f r) = left f" "right (advanceFrame f r) = right f"
  by (simp_all add: advanceFrame_def)

lemma bounded_request:
  assumes "bounded n s"
  shows "bounded n (snd (requestNextPair s))"
proof (rule rnp_invariant[where P="bounded n"], goal_cases)
  case 1
  show ?case by fact
next
  case (2 s st)
  then obtain f where f: "stack st = [f]"
    by (cases "stack st" rule: rev_cases) (auto simp: bounded_def framed_def)
  with 2 show ?case
    by (auto simp: bounded_def framed_def potential_def framePotential_def merged_drain)
next
  case (3 s st)
  then obtain f where f: "stack st = [f]"
    by (cases "stack st" rule: rev_cases) (auto simp: bounded_def framed_def)
  from 3(1,2) have fr: "framed st" and p: "potential st \<le> n" by (auto simp: bounded_def)
  let ?r = "the (cache_get (createComparisonCache (Some (cache s)))
      (left (last (stack st)) ! leftIdx (last (stack st)))
      (right (last (stack st)) ! rightIdx (last (stack st))))"
  have fp: "framePotential (advanceFrame f ?r) \<le> framePotential f"
    using 3(4) f by (auto simp: framePotential_def advanceFrame_def frameComplete_def remaining_def)
  have len: "length (left (advanceFrame f ?r)) = length (left f)"
    "length (right (advanceFrame f ?r)) = length (right f)"
    by (simp_all add: advanceFrame_def)
  have ok: "leftIdx (advanceFrame f ?r) \<le> length (left (advanceFrame f ?r)) \<and>
      rightIdx (advanceFrame f ?r) \<le> length (right (advanceFrame f ?r)) \<and>
      length (merged (advanceFrame f ?r)) = leftIdx (advanceFrame f ?r) + rightIdx (advanceFrame f ?r)"
    using 3(4) fr f by (auto simp: advanceFrame_def frameComplete_def framed_def)
  have "potential (st\<lparr>stack := butlast (stack st) @ [advanceFrame (last (stack st)) ?r]\<rparr>)
      \<le> potential st"
    using fp f by (simp add: potential_def)
  with p have "potential (st\<lparr>stack := butlast (stack st) @ [advanceFrame (last (stack st)) ?r]\<rparr>) \<le> n"
    by simp
  moreover have "framed (st\<lparr>stack := butlast (stack st) @ [advanceFrame (last (stack st)) ?r]\<rparr>)"
    using ok f by (simp add: framed_def)
  ultimately show ?case by (simp add: bounded_def)
next
  case (4 s st r)
  then show ?case by (auto simp: bounded_def framed_def potential_def)
next
  case (5 s st l r rest)
  then show ?case
    by (auto simp: bounded_def framed_def potential_def framePotential_def remaining_def)
qed

lemma bounded_commit:
  assumes "bounded n s" and "pending s a b"
  shows "\<exists>s'. commitComparison s x y r = Inr s' \<and> n > 0 \<and> bounded (n - 1) s'"
proof -
  from assms(2) obtain st where st: "internal s = Some st" "stack st \<noteq> []"
    and nc: "\<not> frameComplete (last (stack st))"
    by (auto simp: pending_def)
  from assms(1) st obtain f where f: "stack st = [f]"
    by (cases "stack st" rule: rev_cases) (auto simp: bounded_def framed_def)
  from nc f have nc: "\<not> frameComplete f" by simp
  let ?s' = "s\<lparr>comparisonsAsked := comparisonsAsked s + 1,
               cache := toRecord (cache_set (cache s) x y r),
               internal := Some (st\<lparr>stack := [advanceFrame f r]\<rparr>)\<rparr>"
  have c: "commitComparison s x y r = Inr ?s'"
    using st f by (simp add: commitComparison_def createComparisonCache_Some Let_def)
  have fp: "framePotential (advanceFrame f r) + 1 \<le> framePotential f"
    using nc by (auto simp: framePotential_def advanceFrame_def frameComplete_def remaining_def)
  have len: "length (left (advanceFrame f r)) = length (left f)"
    "length (right (advanceFrame f r)) = length (right f)"
    by (simp_all add: advanceFrame_def)
  have fr: "leftIdx (advanceFrame f r) \<le> length (left (advanceFrame f r)) \<and>
      rightIdx (advanceFrame f r) \<le> length (right (advanceFrame f r)) \<and>
      length (merged (advanceFrame f r)) = leftIdx (advanceFrame f r) + rightIdx (advanceFrame f r)"
    using assms(1) st f nc by (auto simp: advanceFrame_def frameComplete_def bounded_def framed_def)
  from assms(1) st f have p: "potential st \<le> n" by (simp add: bounded_def)
  have "potential (st\<lparr>stack := [advanceFrame f r]\<rparr>) + 1 \<le> potential st"
    using fp f by (simp add: potential_def len)
  with p have "n > 0 \<and> potential (st\<lparr>stack := [advanceFrame f r]\<rparr>) \<le> n - 1" by simp
  with fr have "n > 0 \<and> bounded (n - 1) ?s'" by (simp add: bounded_def framed_def)
  with c show ?thesis by blast
qed

lemma session_count: "bounded n s \<Longrightarrow> length (fst (session answer s)) \<le> n"
proof (induction s arbitrary: n rule: session_induct[where answer=answer])
  case (step s)
  obtain p s' where r: "requestNextPair s = (p, s')" by (cases "requestNextPair s")
  show ?case
  proof (cases p)
    case None
    with r show ?thesis by (simp add: session_None)
  next
    case (Some ab)
    obtain a b where ab: "ab = (a, b)" by (cases ab)
    with Some r have r': "requestNextPair s = (Some (a, b), s')" by simp
    from bounded_request[OF step.prems] r' have b': "bounded n s'" by simp
    from bounded_commit[OF b' rnp_pending[OF r'], of a b "answer a b"]
    obtain s'' where c: "commitComparison s' a b (answer a b) = Inr s''"
      and n: "n > 0" and b'': "bounded (n - 1) s''" by blast
    from step.IH[OF r' c b''] n show ?thesis
      by (simp add: session_Some[where answer=answer, OF r' c])
  qed
qed

lemma bounded_createSession:
  "bounded (queueCost (replicate (length ids) 1)) (createSession ids c)"
  by (simp add: bounded_def framed_def potential_def createSession_def map_replicate_const comp_def)

lemma replicate_numeral: "replicate (numeral k) x = x # replicate (pred_numeral k) x"
  by (simp add: numeral_eq_Suc)

lemma all_less_numeral:
  "(\<forall>n<numeral k. P n) \<longleftrightarrow> P (pred_numeral k) \<and> (\<forall>n<pred_numeral k. P n)"
  by (auto simp: numeral_eq_Suc less_Suc_eq)

lemma small_costs:
  "\<forall>n<51. queueCost (replicate n 1) \<le> msortWorst n \<and> 2 ^ queueCost (replicate n 1) \<le> n ^ n"
  by (simp add: all_less_numeral replicate_numeral msortWorst.simps)

lemma power_le_log:
  assumes "2 ^ k \<le> n ^ n"
  shows "real k \<le> real n * log 2 (real n)"
proof (cases "n = 0")
  case True
  with assms have "(2::nat) ^ k \<le> 2 ^ 0" by simp
  then have "k \<le> 0" by (simp only: power_increasing_iff one_less_numeral_iff semiring_norm)
  with True show ?thesis by simp
next
  case False
  from assms have "real k \<le> log 2 (real (n ^ n))" by (rule le_log2_of_power)
  also have "\<dots> = real n * log 2 (real n)" using False by (simp add: log_nat_power)
  finally show ?thesis .
qed

lemma session_count_small:
  assumes "length ids \<le> 50"
  shows "length (fst (session answer (createSession ids c))) \<le> msortWorst (length ids) \<and>
         real (length (fst (session answer (createSession ids c))))
           \<le> real (length ids) * log 2 (real (length ids))"
proof -
  let ?n = "length ids" and ?k = "length (fst (session answer (createSession ids c)))"
  have k: "?k \<le> queueCost (replicate ?n 1)"
    by (rule session_count[OF bounded_createSession])
  from assms small_costs have q: "queueCost (replicate ?n 1) \<le> msortWorst ?n"
    and p: "2 ^ queueCost (replicate ?n 1) \<le> ?n ^ ?n" by auto
  from k have "(2::nat) ^ ?k \<le> 2 ^ queueCost (replicate ?n 1)" by simp
  from le_trans[OF this p] have "(2::nat) ^ ?k \<le> ?n ^ ?n" .
  from power_le_log[OF this] k q show ?thesis by simp
qed

lemma consistent_byTarget: "consistent target (byTarget target)"
  by (simp add: consistent_def byTarget_def)

lemma plainItems_Str: "barFree ids \<Longrightarrow> plainItems (map Str ids)"
  by (auto simp: barFree_def plainItems_def)

lemma session_target:
  assumes "distinct ids" and "barFree ids" and "mset target = mset ids"
    and "consistent (map Str target) answer"
  shows "finalize (snd (session answer (createSession ids None))) = map Str target \<and>
         fst (requestNextPair (snd (session answer (createSession ids None)))) = None"
proof -
  from assms(1,3) have "distinct target" by (metis mset_eq_imp_distinct_iff)
  then have d: "distinct (map Str target)" by (simp add: distinct_map inj_on_def)
  from assms(2,3) have "barFree target" by (metis barFree_def mset_eq_setD)
  then have bf: "plainItems (map Str target)" by (rule plainItems_Str)
  from assms(3) have "sorting (map Str target) (createSession ids None)"
    by (intro sorting_createSession) simp
  from session_sorts[OF d bf assms(4) this] show ?thesis .
qed

lemma position_hd: "x \<in> set target \<Longrightarrow> x \<noteq> hd target \<Longrightarrow> outranks target (hd target) x"
  by (cases target) (auto simp: outranks_def position_def)

lemma top_judged_greater:
  assumes "consistent target answer" and "x \<in> set target" and "x \<noteq> hd target"
  shows "answer (hd target) x = Greater"
proof -
  from assms(2) have "hd target \<in> set target" by (cases target) auto
  with assms position_hd[OF assms(2,3)] show ?thesis
    by (auto simp: consistent_def)
qed

text \<open>Paths whose inner nodes all lie in \<open>K\<close>.\<close>

inductive reach :: "(TaskId \<times> TaskId) set \<Rightarrow> TaskId set \<Rightarrow> TaskId \<Rightarrow> TaskId \<Rightarrow> bool"
  for E :: "(TaskId \<times> TaskId) set" and K :: "TaskId set" where
  edge: "(i, j) \<in> E \<Longrightarrow> reach E K i j"
| via: "reach E K i k \<Longrightarrow> k \<in> K \<Longrightarrow> reach E K k j \<Longrightarrow> reach E K i j"

lemma reach_empty: "reach E {} i j \<Longrightarrow> (i, j) \<in> E"
  by (induction rule: reach.induct) auto

lemma reach_mono: "reach E K i j \<Longrightarrow> K \<subseteq> K' \<Longrightarrow> reach E K' i j"
  by (induction rule: reach.induct) (auto intro: reach.intros)

lemma reach_insert:
  "reach E (insert k K) i j \<Longrightarrow>
     reach E K i j \<or> ((i = k \<or> reach E K i k) \<and> (k = j \<or> reach E K k j))"
proof (induction rule: reach.induct)
  case (edge i j)
  then show ?case by (auto intro: reach.edge)
next
  case (via i m j)
  show ?case
  proof (cases "m = k")
    case True
    with via.IH show ?thesis by auto
  next
    case False
    with via.hyps(2) have m: "m \<in> K" by simp
    from via.IH m show ?thesis by (auto intro: reach.via)
  qed
qed

lemma trancl_reach:
  assumes "E \<subseteq> V \<times> V" and "(i, j) \<in> E\<^sup>+"
  shows "reach E V i j"
  using assms(2)
proof (induction rule: trancl.induct)
  case (r_into_trancl a b)
  then show ?case by (rule reach.edge)
next
  case (trancl_into_trancl a b c)
  from trancl_into_trancl.hyps(2) assms(1) have "b \<in> V" by auto
  with trancl_into_trancl show ?case by (auto intro: reach.via reach.edge)
qed

text \<open>The graph.\<close>

lemma graph_has_add:
  "graph_has (graph_add g a b) x y \<longleftrightarrow> graph_has g x y \<or> (x = a \<and> y = b \<and> g a \<noteq> None)"
  by (auto simp: graph_has_def graph_add_def split: option.splits)

lemma dom_graph_add: "dom (graph_add g a b) = dom g"
  by (auto simp: graph_add_def split: option.splits)

lemma initGraph_fold:
  "fold (\<lambda>id g. g(id \<mapsto> {})) ids g x = (if x \<in> set ids then Some {} else g x)"
  by (induction ids arbitrary: g) auto

lemma initGraph_apply: "initGraph ids x = (if x \<in> set ids then Some {} else None)"
  by (simp add: initGraph_def initGraph_fold)

definition directEdge :: "CacheRecord \<Rightarrow> TaskId \<Rightarrow> TaskId \<Rightarrow> (TaskId \<times> TaskId) set" where
  "directEdge m a b =
     (if a = b then {}
      else (case cache_get m (Str a) (Str b) of
              Some Greater \<Rightarrow> {(a, b)} | Some Less \<Rightarrow> {(b, a)} | _ \<Rightarrow> {}))"

definition edges :: "Graph \<Rightarrow> (TaskId \<times> TaskId) set" where
  "edges g = {(a, b). graph_has g a b}"

lemma edges_addDirect:
  "a \<in> dom g \<Longrightarrow> b \<in> dom g \<Longrightarrow> edges (addDirect m a b g) = edges g \<union> directEdge m a b"
  by (auto simp: edges_def addDirect_def directEdge_def graph_has_add
      split: option.splits CompareResult.splits)

lemma dom_addDirect: "dom (addDirect m a b g) = dom g"
  by (simp add: addDirect_def dom_graph_add split: option.splits CompareResult.splits)

lemma fold_addDirect:
  "a \<in> dom g \<Longrightarrow> set bs \<subseteq> dom g \<Longrightarrow>
   dom (fold (addDirect m a) bs g) = dom g \<and>
   edges (fold (addDirect m a) bs g) = edges g \<union> (\<Union>b \<in> set bs. directEdge m a b)"
proof (induction bs arbitrary: g)
  case Nil
  then show ?case by simp
next
  case (Cons b bs)
  have "a \<in> dom (addDirect m a b g)" "set bs \<subseteq> dom (addDirect m a b g)"
    using Cons.prems by (simp_all add: dom_addDirect)
  from Cons.IH[OF this] Cons.prems show ?case
    by (auto simp: dom_addDirect edges_addDirect)
qed

lemma fold_fold_addDirect:
  "set as \<subseteq> dom g \<Longrightarrow> set bs \<subseteq> dom g \<Longrightarrow>
   dom (fold (\<lambda>a. fold (addDirect m a) bs) as g) = dom g \<and>
   edges (fold (\<lambda>a. fold (addDirect m a) bs) as g) =
     edges g \<union> (\<Union>a \<in> set as. \<Union>b \<in> set bs. directEdge m a b)"
proof (induction as arbitrary: g)
  case Nil
  then show ?case by simp
next
  case (Cons a as)
  from Cons.prems have a: "a \<in> dom g" by simp
  note f = fold_addDirect[OF a Cons.prems(2), of m]
  have "set as \<subseteq> dom (fold (addDirect m a) bs g)" "set bs \<subseteq> dom (fold (addDirect m a) bs g)"
    using Cons.prems f by simp_all
  from Cons.IH[OF this] f show ?case by auto
qed

lemma edges_directGraph: "edges (directGraph m ids) = greaterEdges m ids"
proof -
  have d: "dom (initGraph ids) = set ids"
    by (auto simp: initGraph_apply dom_def)
  have e: "edges (initGraph ids) = {}"
    by (auto simp: edges_def graph_has_def initGraph_apply)
  have "edges (directGraph m ids) = (\<Union>a \<in> set ids. \<Union>b \<in> set ids. directEdge m a b)"
    unfolding directGraph_def using fold_fold_addDirect[of ids "initGraph ids" ids m] d e by simp
  also have "\<dots> = greaterEdges m ids"
  proof (rule set_eqI, clarify)
    fix x y
    show "(x, y) \<in> (\<Union>a \<in> set ids. \<Union>b \<in> set ids. directEdge m a b) \<longleftrightarrow>
          (x, y) \<in> greaterEdges m ids"
    proof
      assume "(x, y) \<in> (\<Union>a \<in> set ids. \<Union>b \<in> set ids. directEdge m a b)"
      then obtain a b where ab: "a \<in> set ids" "b \<in> set ids" "(x, y) \<in> directEdge m a b" by auto
      then have ne: "a \<noteq> b" by (auto simp: directEdge_def)
      from ab(3) ne consider "x = a" "y = b" "cache_get m (Str a) (Str b) = Some Greater"
        | "x = b" "y = a" "cache_get m (Str a) (Str b) = Some Less"
        by (auto simp: directEdge_def split: option.splits CompareResult.splits)
      then show "(x, y) \<in> greaterEdges m ids"
      proof cases
        case 1
        with ab ne show ?thesis by (simp add: greaterEdges_def)
      next
        case 2
        with cache_get_swap[OF ne, of m] have "cache_get m (Str b) (Str a) = Some Greater" by simp
        with 2 ab ne show ?thesis by (auto simp: greaterEdges_def)
      qed
    next
      assume "(x, y) \<in> greaterEdges m ids"
      then have "x \<in> set ids" "y \<in> set ids" "(x, y) \<in> directEdge m x y"
        by (auto simp: greaterEdges_def directEdge_def)
      then show "(x, y) \<in> (\<Union>a \<in> set ids. \<Union>b \<in> set ids. directEdge m a b)" by blast
    qed
  qed
  finally show ?thesis .
qed

definition extends :: "Graph \<times> CacheRecord \<Rightarrow> Graph \<times> CacheRecord \<Rightarrow> bool" where
  "extends s s' \<longleftrightarrow> (\<forall>x y. graph_has (fst s) x y \<longrightarrow> graph_has (fst s') x y)"

lemma extends_refl: "extends s s"
  by (simp add: extends_def)

lemma extends_trans: "extends s s' \<Longrightarrow> extends s' s'' \<Longrightarrow> extends s s''"
  by (simp add: extends_def)

lemma fold_extends:
  assumes "\<And>x s. extends s (f x s)"
  shows "extends s (fold f xs s)"
proof (induction xs arbitrary: s)
  case Nil
  show ?case by (simp add: extends_refl)
next
  case (Cons x xs)
  from assms[of s x] Cons[of "f x s"] show ?case by (simp add: extends_trans)
qed

lemma fold_invariant:
  assumes "\<And>x s. I s \<Longrightarrow> I (f x s)" and "I s"
  shows "I (fold f xs s)"
  using assms(2) by (induction xs arbitrary: s) (auto intro: assms(1))

lemma closureStep_extends: "extends s (closureStep k i j s)"
  by (cases s) (auto simp: closureStep_def extends_def graph_has_add Let_def)

lemma closureStep_adds:
  assumes "i \<noteq> j" "i \<noteq> k" "j \<noteq> k" and "graph_has (fst s) i k" and "graph_has (fst s) k j"
  shows "graph_has (fst (closureStep k i j s)) i j"
proof -
  from assms(4) have "fst s i \<noteq> None" by (auto simp: graph_has_def split: option.splits)
  with assms show ?thesis by (simp add: closureStep_def Let_def graph_has_add)
qed

text \<open>One round of the outer loop, for the node \<open>k\<close>.\<close>

lemma round_extends:
  "extends s (fold (\<lambda>i. fold (\<lambda>j. closureStep k i j) ids) ids' s)"
  by (intro fold_extends closureStep_extends)

lemma inner_adds:
  assumes j: "j \<in> set js" and ne: "i \<noteq> j" "i \<noteq> k" "j \<noteq> k"
    and ik: "graph_has (fst s) i k" and kj: "graph_has (fst s) k j"
  shows "graph_has (fst (fold (\<lambda>j. closureStep k i j) js s)) i j"
proof -
  from j obtain js1 js2 where sj: "js = js1 @ j # js2" by (auto dest: split_list)
  let ?s1 = "fold (\<lambda>j. closureStep k i j) js1 s"
  have "extends s ?s1" by (intro fold_extends closureStep_extends)
  with ik kj have "graph_has (fst ?s1) i k" "graph_has (fst ?s1) k j"
    by (simp_all add: extends_def)
  from closureStep_adds[OF ne this] have "graph_has (fst (closureStep k i j ?s1)) i j" .
  moreover have "extends (closureStep k i j ?s1)
      (fold (\<lambda>j. closureStep k i j) js2 (closureStep k i j ?s1))"
    by (intro fold_extends closureStep_extends)
  ultimately show ?thesis by (simp add: sj extends_def)
qed

lemma round_adds:
  assumes i: "i \<in> set is" and j: "j \<in> set js"
    and ne: "i \<noteq> j" "i \<noteq> k" "j \<noteq> k"
    and ik: "graph_has (fst s) i k" and kj: "graph_has (fst s) k j"
  shows "graph_has (fst (fold (\<lambda>i. fold (\<lambda>j. closureStep k i j) js) is s)) i j"
proof -
  let ?F = "\<lambda>i. fold (\<lambda>j. closureStep k i j) js"
  from i obtain is1 is2 where si: "is = is1 @ i # is2" by (auto dest: split_list)
  let ?s1 = "fold ?F is1 s"
  have "extends s ?s1" by (intro fold_extends closureStep_extends)
  with ik kj have "graph_has (fst ?s1) i k" "graph_has (fst ?s1) k j"
    by (simp_all add: extends_def)
  from inner_adds[OF j ne this] have "graph_has (fst (?F i ?s1)) i j" .
  moreover have "extends (?F i ?s1) (fold ?F is2 (?F i ?s1))"
    by (intro fold_extends closureStep_extends)
  ultimately show ?thesis by (simp add: si extends_def)
qed

lemma warshall:
  assumes "\<forall>i j. i \<in> V \<and> j \<in> V \<and> i \<noteq> j \<and> reach E K i j \<longrightarrow> graph_has (fst s) i j"
    and "set ks \<subseteq> V" and "V = set ids"
  shows "\<forall>i j. i \<in> V \<and> j \<in> V \<and> i \<noteq> j \<and> reach E (K \<union> set ks) i j \<longrightarrow>
     graph_has (fst (fold (\<lambda>k. fold (\<lambda>i. fold (\<lambda>j. closureStep k i j) ids) ids) ks s)) i j"
  using assms(1,2)
proof (induction ks arbitrary: s K)
  case Nil
  then show ?case by simp
next
  case (Cons k ks)
  let ?s' = "fold (\<lambda>i. fold (\<lambda>j. closureStep k i j) ids) ids s"
  from Cons.prems(2) have k: "k \<in> V" by simp
  have ext: "extends s ?s'" by (rule round_extends)
  have inv: "\<forall>i j. i \<in> V \<and> j \<in> V \<and> i \<noteq> j \<and> reach E (insert k K) i j \<longrightarrow>
      graph_has (fst ?s') i j"
  proof (intro allI impI, elim conjE)
    fix i j
    assume i: "i \<in> V" and j: "j \<in> V" and ne: "i \<noteq> j" and r: "reach E (insert k K) i j"
    from reach_insert[OF r] consider "reach E K i j"
      | "i = k \<or> reach E K i k" "k = j \<or> reach E K k j" by blast
    then show "graph_has (fst ?s') i j"
    proof cases
      case 1
      with Cons.prems(1) i j ne have "graph_has (fst s) i j" by blast
      with ext show ?thesis by (simp add: extends_def)
    next
      case 2
      show ?thesis
      proof (cases "i = k \<or> j = k")
        case True
        with 2 ne have "reach E K i j" by auto
        with Cons.prems(1) i j ne have "graph_has (fst s) i j" by blast
        with ext show ?thesis by (simp add: extends_def)
      next
        case False
        with 2 have "reach E K i k" "reach E K k j" by auto
        with Cons.prems(1) i j k False have "graph_has (fst s) i k" "graph_has (fst s) k j"
          by blast+
        with round_adds[of i ids j ids k s] i j ne False assms(3) show ?thesis by simp
      qed
    qed
  qed
  from Cons.prems(2) have "set ks \<subseteq> V" by simp
  from Cons.IH[OF inv this] show ?case by simp
qed

text \<open>What every step keeps true of the graph and the cache.\<close>

definition closureInv ::
  "CacheRecord \<Rightarrow> (TaskId \<times> TaskId) set \<Rightarrow> Graph \<times> CacheRecord \<Rightarrow> bool" where
  "closureInv c E s \<longleftrightarrow>
     (\<forall>x y. graph_has (fst s) x y \<longrightarrow> cache_has (snd s) (Str x) (Str y) \<and> (x, y) \<in> E\<^sup>+) \<and>
     (\<forall>key. DAList.lookup c key \<noteq> None \<longrightarrow> DAList.lookup (snd s) key = DAList.lookup c key) \<and>
     (\<forall>key v. DAList.lookup c key = None \<longrightarrow> DAList.lookup (snd s) key = Some v \<longrightarrow>
        (\<exists>x y. (x, y) \<in> E\<^sup>+ \<and> x \<noteq> y \<and> key = createCacheKey (Str x) (Str y) \<and>
           v = normalizeResult (Str x) (Str y) Greater))"

lemma closureStep_inv:
  assumes "closureInv c E s"
  shows "closureInv c E (closureStep k i j s)"
proof (cases "\<not> (i = j \<or> i = k \<or> j = k) \<and> graph_has (fst s) i k \<and> graph_has (fst s) k j")
  case False
  then have "closureStep k i j s = s" by (auto simp: closureStep_def Let_def)
  with assms show ?thesis by simp
next
  case True
  obtain g m where s: "s = (g, m)" by (cases s)
  from True s assms have ij: "(i, j) \<in> E\<^sup>+" and ne: "i \<noteq> j"
    by (auto simp: closureInv_def intro: trancl_trans)
  show ?thesis
  proof (cases "cache_has m (Str i) (Str j)")
    case h: True
    with True s have "closureStep k i j s = (graph_add g i j, m)"
      by (simp add: closureStep_def Let_def)
    with assms s h ij show ?thesis
      by (auto simp: closureInv_def graph_has_add)
  next
    case h: False
    with True s have e: "closureStep k i j s = (graph_add g i j, cache_set m (Str i) (Str j) Greater)"
      by (simp add: closureStep_def Let_def)
    from h have n: "DAList.lookup m (createCacheKey (Str i) (Str j)) = None"
      by (simp add: cache_has_def)
    have l: "DAList.lookup (cache_set m (Str i) (Str j) Greater) key =
        (if key = createCacheKey (Str i) (Str j) then Some (normalizeResult (Str i) (Str j) Greater)
         else DAList.lookup m key)"
      for key by (auto simp: cache_set_def lookup_update)
    have 1: "\<forall>x y. graph_has (graph_add g i j) x y \<longrightarrow>
        cache_has (cache_set m (Str i) (Str j) Greater) (Str x) (Str y) \<and> (x, y) \<in> E\<^sup>+"
      using assms s ij by (auto simp: closureInv_def graph_has_add cache_has_def l)
    have 2: "\<forall>key. DAList.lookup c key \<noteq> None \<longrightarrow>
        DAList.lookup (cache_set m (Str i) (Str j) Greater) key = DAList.lookup c key"
      using assms s n by (auto simp: closureInv_def l)
    have 3: "\<forall>key v. DAList.lookup c key = None \<longrightarrow>
        DAList.lookup (cache_set m (Str i) (Str j) Greater) key = Some v \<longrightarrow>
        (\<exists>x y. (x, y) \<in> E\<^sup>+ \<and> x \<noteq> y \<and> key = createCacheKey (Str x) (Str y) \<and>
           v = normalizeResult (Str x) (Str y) Greater)"
      using assms s ij ne by (auto simp: closureInv_def l)
    from 1 2 3 show ?thesis by (simp add: e closureInv_def)
  qed
qed

lemma closureInv_start: "closureInv c (greaterEdges c ids) (directGraph c ids, c)"
proof -
  have "graph_has (directGraph c ids) x y \<Longrightarrow> (x, y) \<in> greaterEdges c ids" for x y
    using edges_directGraph[of c ids] by (auto simp: edges_def)
  moreover have "(x, y) \<in> greaterEdges c ids \<Longrightarrow> cache_has c (Str x) (Str y)" for x y
    by (auto simp: greaterEdges_def cache_has_get)
  ultimately show ?thesis by (auto simp: closureInv_def)
qed

definition closureRun :: "CacheRecord \<Rightarrow> TaskId list \<Rightarrow> Graph \<times> CacheRecord" where
  "closureRun c ids =
     fold (\<lambda>k. fold (\<lambda>i. fold (\<lambda>j. closureStep k i j) ids) ids) ids (directGraph c ids, c)"

lemma closureRun_inv: "closureInv c (greaterEdges c ids) (closureRun c ids)"
  unfolding closureRun_def
  by (intro fold_invariant[where I="closureInv c (greaterEdges c ids)"] closureStep_inv
      closureInv_start)

lemma closureRun_complete:
  assumes "(i, j) \<in> (greaterEdges c ids)\<^sup>+" and "i \<noteq> j"
  shows "graph_has (fst (closureRun c ids)) i j"
proof -
  let ?E = "greaterEdges c ids" and ?V = "set ids"
  have sub: "?E \<subseteq> ?V \<times> ?V" by (auto simp: greaterEdges_def)
  from trancl_reach[OF sub assms(1)] have r: "reach ?E ?V i j" .
  from assms(1) sub have ij: "i \<in> ?V" "j \<in> ?V"
    by (auto dest: tranclD tranclD2)
  have base: "\<forall>i j. i \<in> ?V \<and> j \<in> ?V \<and> i \<noteq> j \<and> reach ?E {} i j \<longrightarrow>
      graph_has (fst (directGraph c ids, c)) i j"
    using edges_directGraph[of c ids] by (auto simp: edges_def dest: reach_empty)
  from warshall[OF base subset_refl refl] r ij assms(2) show ?thesis
    by (simp add: closureRun_def)
qed

lemma applyTransitiveClosure_run: "applyTransitiveClosure c ids = snd (closureRun c ids)"
  by (simp add: applyTransitiveClosure_def closureRun_def)

lemma closure_has:
  assumes "(i, j) \<in> (greaterEdges c ids)\<^sup>+" and "i \<noteq> j"
  shows "cache_has (applyTransitiveClosure c ids) (Str i) (Str j)"
  using closureRun_complete[OF assms] closureRun_inv[of c ids]
  by (simp add: closureInv_def applyTransitiveClosure_run)

lemma closure_keeps:
  assumes "cache_has c a b"
  shows "cache_get (applyTransitiveClosure c ids) a b = cache_get c a b"
  using assms closureRun_inv[of c ids]
  by (simp add: closureInv_def applyTransitiveClosure_run cache_has_def cache_get_def)

lemma closure_new_strict:
  assumes "\<not> cache_has c i j" and "cache_has (applyTransitiveClosure c ids) i j"
  shows "cache_get (applyTransitiveClosure c ids) i j = Some Greater \<or>
         cache_get (applyTransitiveClosure c ids) i j = Some Less"
proof -
  from assms obtain v where n: "DAList.lookup c (createCacheKey i j) = None"
    and v: "DAList.lookup (applyTransitiveClosure c ids) (createCacheKey i j) = Some v"
    by (auto simp: cache_has_def)
  with closureRun_inv[of c ids] obtain x y where "v = normalizeResult (Str x) (Str y) Greater"
    unfolding closureInv_def applyTransitiveClosure_run by blast
  then have "v = Greater \<or> v = Less" by (auto simp: normalizeResult_Str)
  with v show ?thesis by (auto simp: cache_get_def normalizeResult_def)
qed

lemma closure_oriented:
  assumes bf: "barFree ids" and ij: "(i, j) \<in> (greaterEdges c ids)\<^sup>+"
    and ji: "(j, i) \<notin> (greaterEdges c ids)\<^sup>+" and n: "\<not> cache_has c (Str i) (Str j)"
  shows "cache_get (applyTransitiveClosure c ids) (Str i) (Str j) = Some Greater"
proof -
  let ?E = "greaterEdges c ids" and ?V = "set ids"
  have sub: "?E \<subseteq> ?V \<times> ?V" by (auto simp: greaterEdges_def)
  from ij ji have ne: "i \<noteq> j" by auto
  from ij sub have iv: "i \<in> ?V" "j \<in> ?V" by (auto dest: tranclD tranclD2)
  from closure_has[OF ij ne] obtain v
    where v: "DAList.lookup (applyTransitiveClosure c ids) (createCacheKey (Str i) (Str j)) = Some v"
    by (auto simp: cache_has_def)
  from n have "DAList.lookup c (createCacheKey (Str i) (Str j)) = None" by (simp add: cache_has_def)
  with v closureRun_inv[of c ids] obtain x y where xy: "(x, y) \<in> ?E\<^sup>+" "x \<noteq> y"
    "createCacheKey (Str i) (Str j) = createCacheKey (Str x) (Str y)"
    "v = normalizeResult (Str x) (Str y) Greater"
    unfolding closureInv_def applyTransitiveClosure_run by blast
  from xy(1) sub have xv: "x \<in> ?V" "y \<in> ?V" by (auto dest: tranclD tranclD2)
  from createCacheKey_inj[OF _ _ _ _ xy(3)] bf iv xv
  have "(i = x \<and> j = y) \<or> (i = y \<and> j = x)" by (auto simp: barFree_def)
  with xy(1) ji have "i = x \<and> j = y" by auto
  with v xy(4) show ?thesis by (simp add: cache_get_def normalizeResult_invol)
qed

text \<open>The scenario, by running the pass.\<close>

lemma closure_scenario_run:
  "cache_get (applyTransitiveClosure
       (cache_set (cache_set DAList.empty (Str ''A'') (Str ''B'') Greater)
          (Str ''B'') (Str ''C'') Greater)
       [''A'', ''B'', ''C'']) (Str ''A'') (Str ''C'') = Some Greater"
  by (simp add: applyTransitiveClosure_def directGraph_def initGraph_def closureStep_def
      addDirect_def graph_add_def graph_has_def cache_get_def cache_set_def cache_has_def
      createCacheKey_Str normalizeResult_Str lookup_update Let_def)

lemma those_map_Some:
  "(\<And>x. x \<in> set xs \<Longrightarrow> d (e x) = Some (g x)) \<Longrightarrow> those (map (d \<circ> e) xs) = Some (map g xs)"
  by (induction xs) auto

lemma decList_enc:
  "(\<And>x. x \<in> set xs \<Longrightarrow> d (e x) = Some (g x)) \<Longrightarrow>
   decList d (JArr (map e xs)) = Some (map g xs)"
  using those_map_Some[of xs d e g] by (simp add: decList_def)

lemma decElem_enc: "decElem (encElem x) = Some (reloadedElem x)"
  by (cases x) (simp_all add: decElem_def encElem_def reloadedElem_def)

lemma decIds_enc: "decList decElem (encIds ids) = Some (map reloadedElem ids)"
  unfolding encIds_def by (rule decList_enc) (simp add: decElem_enc)

lemma decResult_enc: "decResult (encResult r) = Some r"
  by (cases r) (simp_all add: decResult_def encResult_def)

lemma decFrame_enc: "decFrame (encFrame f) = Some (reloadedFrame f)"
  by (simp add: decFrame_def encFrame_def field_def decIds_enc decNat_def reloadedFrame_def)

lemma decInternal_enc: "decInternal (encInternal st) = Some (reloadedInternal st)"
proof -
  have r: "decList (decList decElem) (JArr (map encIds (runs st)))
      = Some (map (map reloadedElem) (runs st))"
    by (rule decList_enc) (simp add: decIds_enc)
  have f: "decList decFrame (JArr (map encFrame (stack st))) = Some (map reloadedFrame (stack st))"
    by (rule decList_enc) (simp add: decFrame_enc)
  show ?thesis
    by (simp add: decInternal_def encInternal_def field_def decIds_enc r f reloadedInternal_def)
qed

lemma decCache_enc:
  "decCache (JObj (map (\<lambda>(key, v). (key, encResult v)) (DAList.impl_of c))) = Some c"
proof -
  have t: "those (map ((\<lambda>(key, v). map_option (Pair key) (decResult v)) \<circ>
          (\<lambda>(key, v). (key, encResult v))) xs) = Some xs" for xs
    by (induction xs) (auto simp: decResult_enc)
  show ?thesis by (simp add: decCache_def t setEntries_impl_of_empty)
qed

lemma deserialize_serialize: "deserialize (serialize s) = Some (reloaded s)"
proof -
  have a: "decAlgo (JStr (case algo s of Merge \<Rightarrow> ''merge'' | Insertion \<Rightarrow> ''insertion'')) = Some (algo s)"
    by (cases "algo s") (simp_all add: decAlgo_def)
  have n: "decNullable decInternal (encInternal st) = map_option Some (decInternal (encInternal st))"
    for st by (simp add: decNullable_def encInternal_def)
  have i: "decNullable decInternal (case internal s of None \<Rightarrow> JNull | Some st \<Rightarrow> encInternal st)
      = Some (map_option reloadedInternal (internal s))"
    by (cases "internal s") (simp_all add: n decInternal_enc, simp add: decNullable_def)
  show ?thesis
    by (simp add: deserialize_def serialize_def field_def a i decCache_enc decNat_def reloaded_def)
qed

lemma reloadedElem_id: "list_all (\<lambda>x. x \<noteq> Undefined) xs \<Longrightarrow> map reloadedElem xs = xs"
  by (induction xs) (auto simp: reloadedElem_def split: elem.splits)

lemma reloadedFrame_id: "frameHolds (\<lambda>x. x \<noteq> Undefined) f \<Longrightarrow> reloadedFrame f = f"
  by (simp add: frameHolds_def reloadedFrame_def reloadedElem_id)

lemma reloaded_definite: "definite s \<Longrightarrow> reloaded s = s"
proof (cases "internal s")
  case None
  then show ?thesis by (simp add: reloaded_def)
next
  case (Some st)
  assume "definite s"
  with Some have r: "list_all (list_all (\<lambda>x. x \<noteq> Undefined)) (runs st)"
    and f: "list_all (frameHolds (\<lambda>x. x \<noteq> Undefined)) (stack st)"
    and e: "list_all (\<lambda>x. x \<noteq> Undefined) (result st)"
    by (simp_all add: definite_def holds_def)
  from r have "map (map reloadedElem) (runs st) = runs st"
    by (induction "runs st" arbitrary: st) (auto simp: reloadedElem_id list_all_iff intro: map_idI)
  moreover from f have "map reloadedFrame (stack st) = stack st"
    by (auto simp: reloadedFrame_id list_all_iff intro: map_idI)
  ultimately have "reloadedInternal st = st"
    using e by (simp add: reloadedInternal_def reloadedElem_id)
  with Some show ?thesis by (simp add: reloaded_def)
qed

text \<open>What every array holds is kept by a request, and by the commit of a pending pair.\<close>

lemma holds_request: "holds P s \<Longrightarrow> holds P (snd (requestNextPair s))"
proof (rule rnp_invariant[where P="holds P"], goal_cases)
  case 1
  then show ?case .
next
  case (2 s st)
  then obtain fs f where f: "stack st = fs @ [f]" by (cases "stack st" rule: rev_cases) auto
  with 2 show ?case
    by (auto simp: holds_def frameHolds_def merged_drain list_all_iff dest: in_set_dropD)
next
  case (3 s st)
  then obtain fs f where f: "stack st = fs @ [f]" by (cases "stack st" rule: rev_cases) auto
  with 3 show ?case
    by (auto simp: holds_def frameHolds_def advanceFrame_def frameComplete_def list_all_iff not_le)
next
  case (4 s st r)
  then show ?case by (auto simp: holds_def)
next
  case (5 s st l r rest)
  then show ?case by (auto simp: holds_def frameHolds_def)
qed

lemma holds_commit:
  assumes "holds P s" and "pending s a b" and "commitComparison s x y r = Inr s'"
  shows "holds P s'"
proof -
  from assms(2) obtain st fs f where st: "internal s = Some st" and f: "stack st = fs @ [f]"
    and nc: "\<not> frameComplete f"
    by (cases "stack (the (internal s))" rule: rev_cases) (auto simp: pending_def)
  with assms(1,3) show ?thesis
    by (auto simp: holds_def frameHolds_def commitComparison_def Let_def advanceFrame_def
        frameComplete_def list_all_iff not_le)
qed

lemma holds_createSession: "holds (\<lambda>x. \<exists>s. x = Str s) (createSession ids c)"
  by (simp add: holds_def createSession_def list_all_iff)

lemma protocol_holds: "protocol s0 s \<Longrightarrow> holds P s0 \<Longrightarrow> holds P s"
proof (induction rule: protocol.induct)
  case start
  then show ?case .
next
  case (request s p s')
  then show ?case using holds_request[of P s] by simp
next
  case (answer s a b s' r s'')
  then have "holds P s'" using holds_request[of P s] by simp
  then show ?case using rnp_pending[OF answer.hyps(2)] answer.hyps(3) by (rule holds_commit)
qed

lemma holds_mono: "holds P s \<Longrightarrow> (\<And>x. P x \<Longrightarrow> Q x) \<Longrightarrow> holds Q s"
  by (auto simp: holds_def frameHolds_def list_all_iff split: option.splits)

lemma protocol_definite: "protocol (createSession ids c) s \<Longrightarrow> definite s"
  unfolding definite_def
  by (rule holds_mono[OF protocol_holds[OF _ holds_createSession]]) auto

lemma pending_strings:
  assumes "holds (\<lambda>x. \<exists>s. x = Str s) s" and "pending s a b"
  shows "\<exists>a' b'. a = Str a' \<and> b = Str b'"
proof -
  from assms(2) obtain st fs f where st: "internal s = Some st" and f: "stack st = fs @ [f]"
    and nc: "\<not> frameComplete f"
    and ab: "a = left f ! leftIdx f" "b = right f ! rightIdx f"
    by (cases "stack (the (internal s))" rule: rev_cases) (auto simp: pending_def)
  from nc have "left f ! leftIdx f \<in> set (left f)" "right f ! rightIdx f \<in> set (right f)"
    by (simp_all add: frameComplete_def not_le)
  with assms(1) st f ab show ?thesis
    by (auto simp: holds_def frameHolds_def list_all_iff)
qed

lemma rnp_idem: "requestNextPair s = (p, s') \<Longrightarrow> requestNextPair s' = (p, s')"
proof (induction s arbitrary: p s' rule: rnp_induct)
  case (none s)
  then show ?case by (simp add: rnp_none)
next
  case (complete s st)
  from complete.prems have "requestNextPair (s\<lparr>internal := Some (st\<lparr>stack := butlast (stack st),
      runs := runs st @ [merged (drainRight (drainLeft (last (stack st))))]\<rparr>)\<rparr>) = (p, s')"
    by (simp only: rnp_complete[OF complete(1,2,3)])
  then show ?case by (rule complete.IH)
next
  case (hit s st)
  from hit.prems have "requestNextPair (s\<lparr>internal := Some (st\<lparr>stack := butlast (stack st) @
      [advanceFrame (last (stack st))
         (the (cache_get (createComparisonCache (Some (cache s)))
            (left (last (stack st)) ! leftIdx (last (stack st)))
            (right (last (stack st)) ! rightIdx (last (stack st)))))]\<rparr>)\<rparr>) = (p, s')"
    by (simp only: rnp_hit[OF hit(1,2,3,4)])
  then show ?case by (rule hit.IH)
next
  case (ask s st)
  from ask.prems rnp_ask[OF ask(1,2,3,4)] have "s' = s" and "requestNextPair s = (p, s)"
    by simp_all
  then show ?case by simp
next
  case (empty s st)
  from empty.prems rnp_empty[OF empty(1,2,3)] have "s' = s" and "requestNextPair s = (p, s)"
    by simp_all
  then show ?case by simp
next
  case (finished s st r)
  from finished.prems rnp_done[OF finished(1,2,3)]
  have e: "p = None" "s' = s\<lparr>internal := Some (st\<lparr>result := r\<rparr>)\<rparr>"
    by simp_all
  have "requestNextPair (s\<lparr>internal := Some (st\<lparr>result := r\<rparr>)\<rparr>) =
      (None, s\<lparr>internal := Some (st\<lparr>result := r\<rparr>)\<rparr>
        \<lparr>internal := Some (st\<lparr>result := r\<rparr>\<lparr>result := r\<rparr>)\<rparr>)"
    by (rule rnp_done) (use finished(2,3) in simp_all)
  with e show ?case by simp
next
  case (start s st l r rest)
  from start.prems have "requestNextPair (s\<lparr>internal := Some (st\<lparr>runs := rest,
      stack := [\<lparr>left = l, right = r, leftIdx = 0, rightIdx = 0, merged = []\<rparr>]\<rparr>)\<rparr>) = (p, s')"
    by (simp only: rnp_start[OF start(1,2,3)])
  then show ?case by (rule start.IH)
qed

lemma replay_after_request:
  assumes "requestNextPair s = (p, s')"
  shows "replay rs s' = replay rs s"
  using rnp_idem[OF assms] assms by (cases rs) simp_all

text \<open>A run of the answers \<open>rs1 @ rs2\<close> is the run of \<open>rs1\<close> followed by the run of \<open>rs2\<close>.\<close>

lemma commit_Inr:
  "internal s = Some st \<Longrightarrow> \<exists>s'. commitComparison s x y r = Inr s'"
  by (simp add: commitComparison_def Let_def)

lemma pending_commit: "pending s a b \<Longrightarrow> \<exists>s'. commitComparison s x y r = Inr s'"
  by (auto simp: pending_def intro: commit_Inr)

lemma replay_None: "requestNextPair s = (None, s') \<Longrightarrow> replay rs s = ([], s')"
  by (cases rs) simp_all

lemma replay_Cons:
  "requestNextPair s = (Some (a, b), s') \<Longrightarrow> commitComparison s' a b r = Inr s'' \<Longrightarrow>
   replay (r # rs) s = ((a, b) # fst (replay rs s''), snd (replay rs s''))"
  by (simp add: case_prod_unfold Let_def)

lemma replay_append:
  "snd (replay (rs1 @ rs2) s) = snd (replay rs2 (snd (replay rs1 s))) \<and>
   fst (replay (rs1 @ rs2) s) =
     take (length rs1) (fst (replay rs1 s)) @ fst (replay rs2 (snd (replay rs1 s)))"
proof (induction rs1 arbitrary: s)
  case Nil
  obtain p s' where r: "requestNextPair s = (p, s')" by (cases "requestNextPair s")
  have "snd (replay [] s) = s'" using r by (cases p) auto
  with replay_after_request[OF r, of rs2] show ?case by simp
next
  case (Cons r rs1)
  obtain p s' where q: "requestNextPair s = (p, s')" by (cases "requestNextPair s")
  show ?case
  proof (cases p)
    case None
    with q have q': "requestNextPair s = (None, s')" by simp
    from rnp_idem[OF q'] have "replay rs2 s' = ([], s')" by (rule replay_None)
    with replay_None[OF q'] show ?thesis by simp
  next
    case (Some ab)
    obtain a b where ab: "ab = (a, b)" by (cases ab)
    with Some q have q': "requestNextPair s = (Some (a, b), s')" by simp
    from pending_commit[OF rnp_pending[OF q']] obtain s''
      where c: "commitComparison s' a b r = Inr s''" by blast
    from replay_Cons[OF q' c, of rs1] replay_Cons[OF q' c, of "rs1 @ rs2"] Cons.IH[of s'']
    show ?thesis by simp
  qed
qed

lemma holds_replay: "holds P s \<Longrightarrow> holds P (snd (replay rs s))"
proof (induction rs arbitrary: s)
  case Nil
  obtain p s' where r: "requestNextPair s = (p, s')" by (cases "requestNextPair s")
  have "snd (replay [] s) = s'" using r by (cases p) auto
  with holds_request[OF Nil] r show ?case by simp
next
  case (Cons r rs)
  obtain p s' where q: "requestNextPair s = (p, s')" by (cases "requestNextPair s")
  from holds_request[OF Cons.prems] q have h': "holds P s'" by simp
  show ?case
  proof (cases p)
    case None
    with q h' show ?thesis by (simp add: replay_None)
  next
    case (Some ab)
    obtain a b where ab: "ab = (a, b)" by (cases ab)
    with Some q have q': "requestNextPair s = (Some (a, b), s')" by simp
    from pending_commit[OF rnp_pending[OF q']] obtain s''
      where c: "commitComparison s' a b r = Inr s''" by blast
    from holds_commit[OF h' rnp_pending[OF q'] c] have "holds P s''" .
    from Cons.IH[OF this] replay_Cons[OF q' c, of rs] show ?thesis by (simp del: replay.simps)
  qed
qed

text \<open>Every answer is kept: the final order has each judged pair in the judged order.\<close>

lemma precedes_append:
  "precedes (xs @ ys) a b \<longleftrightarrow> precedes xs a b \<or> precedes ys a b \<or> (a \<in> set xs \<and> b \<in> set ys)"
  by (induction xs) auto

lemma frameOrder_drain:
  assumes "frameComplete f"
  shows "frameOrder f \<subseteq> {(x, y). precedes (merged (drainRight (drainLeft f))) x y}"
proof -
  from assms have "drop (leftIdx f) (left f) = [] \<or> drop (rightIdx f) (right f) = []"
    by (auto simp: frameComplete_def)
  then show ?thesis by (auto simp: frameOrder_def merged_drain precedes_append)
qed

lemma frameOrder_advance:
  assumes "\<not> frameComplete f"
  shows "frameOrder f \<subseteq> frameOrder (advanceFrame f r)"
    and "(if r = Less then (right f ! rightIdx f, left f ! leftIdx f)
         else (left f ! leftIdx f, right f ! rightIdx f)) \<in> frameOrder (advanceFrame f r)"
proof -
  from assms have li: "leftIdx f < length (left f)" and ri: "rightIdx f < length (right f)"
    by (auto simp: frameComplete_def)
  have dl: "drop (leftIdx f) (left f) = left f ! leftIdx f # drop (Suc (leftIdx f)) (left f)"
    using li by (simp add: Cons_nth_drop_Suc)
  have dr: "drop (rightIdx f) (right f) = right f ! rightIdx f # drop (Suc (rightIdx f)) (right f)"
    using ri by (simp add: Cons_nth_drop_Suc)
  show "frameOrder f \<subseteq> frameOrder (advanceFrame f r)"
    using li ri by (cases r) (auto simp: frameOrder_def advanceFrame_def precedes_append dl dr)
  show "(if r = Less then (right f ! rightIdx f, left f ! leftIdx f)
         else (left f ! leftIdx f, right f ! rightIdx f)) \<in> frameOrder (advanceFrame f r)"
    using li ri by (cases r) (auto simp: frameOrder_def advanceFrame_def precedes_append dl dr)
qed

lemma stateOrder_request:
  assumes "S \<subseteq> stateOrder s"
  shows "S \<subseteq> stateOrder (snd (requestNextPair s))"
proof (rule rnp_invariant[where P="\<lambda>t. S \<subseteq> stateOrder t"], goal_cases)
  case 1
  show ?case by fact
next
  case (2 s st)
  then obtain fs f where f: "stack st = fs @ [f]" by (cases "stack st" rule: rev_cases) auto
  with 2 frameOrder_drain[of f] show ?case
    by (auto simp: stateOrder_def)
next
  case (3 s st)
  then obtain fs f where f: "stack st = fs @ [f]" by (cases "stack st" rule: rev_cases) auto
  with 3 frameOrder_advance(1)[of f] show ?case
    by (fastforce simp: stateOrder_def)
next
  case (4 s st r)
  then show ?case by (auto simp: stateOrder_def)
next
  case (5 s st l r rest)
  then show ?case by (fastforce simp: stateOrder_def frameOrder_def)
qed

lemma stateOrder_commit:
  assumes "pending s a b" and "commitComparison s a b r = Inr s'"
  shows "stateOrder s \<subseteq> stateOrder s'"
    and "(if r = Less then (b, a) else (a, b)) \<in> stateOrder s'"
proof -
  from assms(1) obtain st where st: "internal s = Some st" "stack st \<noteq> []"
    and nc: "\<not> frameComplete (last (stack st))"
    and ab: "a = left (last (stack st)) ! leftIdx (last (stack st))"
      "b = right (last (stack st)) ! rightIdx (last (stack st))"
    by (auto simp: pending_def)
  from st obtain fs f where f: "stack st = fs @ [f]" by (cases "stack st" rule: rev_cases) auto
  from nc f have nc': "\<not> frameComplete f" by simp
  from assms(2) st f have s': "internal s' = Some (st\<lparr>stack := fs @ [advanceFrame f r]\<rparr>)"
    by (auto simp: commitComparison_def Let_def split: if_splits)
  from frameOrder_advance(1)[OF nc', of r] show "stateOrder s \<subseteq> stateOrder s'"
    using st f s' by (auto simp: stateOrder_def)
  from frameOrder_advance(2)[OF nc', of r] show "(if r = Less then (b, a) else (a, b)) \<in> stateOrder s'"
    using f s' ab by (auto simp: stateOrder_def)
qed

lemma stateOrder_final:
  assumes "requestNextPair s = (None, s')"
  shows "stateOrder s' \<subseteq> {(x, y). precedes (finalize s') x y}"
  using rnp_None_shape[OF assms] by (auto simp: stateOrder_def finalize_def)

lemma session_respects:
  "S \<subseteq> stateOrder s \<Longrightarrow>
   S \<union> judged answer ` set (fst (session answer s))
     \<subseteq> {(x, y). precedes (finalize (snd (session answer s))) x y}"
proof (induction s arbitrary: S rule: session_induct[where answer=answer])
  case (step s)
  obtain p s' where r: "requestNextPair s = (p, s')" by (cases "requestNextPair s")
  from stateOrder_request[OF step.prems] r have S': "S \<subseteq> stateOrder s'" by simp
  show ?case
  proof (cases p)
    case None
    with r have r': "requestNextPair s = (None, s')" by simp
    from S' stateOrder_final[OF r'] show ?thesis by (auto simp: session_None[OF r'])
  next
    case (Some ab)
    obtain a b where ab: "ab = (a, b)" by (cases ab)
    with Some r have r': "requestNextPair s = (Some (a, b), s')" by simp
    note pe = rnp_pending[OF r']
    show ?thesis
    proof (cases "commitComparison s' a b (answer a b)")
      case (Inr s'')
      from stateOrder_commit[OF pe Inr] S'
      have "insert (judged answer (a, b)) S \<subseteq> stateOrder s''"
        by (auto simp: judged_def)
      from step.IH[OF r' Inr this] show ?thesis
        by (auto simp: session_Some[where answer=answer, OF r' Inr])
    next
      case (Inl e)
      from pe obtain st where "internal s' = Some st" "stack st \<noteq> []"
        "\<not> frameComplete (last (stack st))" by (auto simp: pending_def)
      with Inl show ?thesis
        by (auto simp: commitComparison_def Let_def split: if_splits)
    qed
  qed
qed

lemma answers_respected:
  assumes "(a, b) \<in> set (fst (session answer s))"
  shows "if answer a b = Less then precedes (finalize (snd (session answer s))) b a
         else precedes (finalize (snd (session answer s))) a b"
proof -
  from assms have "judged answer (a, b) \<in> judged answer ` set (fst (session answer s))"
    by (rule imageI)
  with session_respects[of "{}" s answer] show ?thesis
    by (auto simp: judged_def split: if_splits)
qed

text \<open>Unfolding the engine on a concrete state.\<close>

lemmas run_simps = requestNextPair.simps createSession_def
  createComparisonCache_Some createComparisonCache_None toRecord_proper commitComparison_def
  cache_has_def cache_get_def cache_set_def createCacheKey_def normalizeResult_def
  lookup_update advanceFrame_def elemAt_def merged_drain Let_def finalize_def isComplete_def
  estimateComparisons_def frameComplete_def

lemmas order_simps = consistent_def barFree_def outranks_def position_def byTarget_def

section \<open>The claims\<close>

text \<open>
  C3 (amended). For distinct identifiers \<open>a\<close> and \<open>b\<close>: after \<open>set(a, b, r)\<close>,
  \<open>get(a, b)\<close> returns \<open>r\<close> and \<open>get(b, a)\<close> returns the inverse of \<open>r\<close>; on every
  cache \<open>get(b, a)\<close> is the inverse of \<open>get(a, b)\<close>, or both are absent. For all
  identifiers \<open>a\<close> and \<open>b\<close>, \<open>has(a, b)\<close> equals \<open>has(b, a)\<close>.
\<close>

theorem cache_symmetry:
  "(\<forall>c a b r. a \<noteq> b \<longrightarrow>
      cache_get (cache_set c (Str a) (Str b) r) (Str a) (Str b) = Some r \<and>
      cache_get (cache_set c (Str a) (Str b) r) (Str b) (Str a) = Some (negate r)) \<and>
   (\<forall>c a b. a \<noteq> b \<longrightarrow>
      cache_get c (Str b) (Str a) = map_option negate (cache_get c (Str a) (Str b))) \<and>
   (\<forall>c a b. cache_has c (Str a) (Str b) = cache_has c (Str b) (Str a))"
  using cache_get_set_same cache_get_set_swap cache_get_swap cache_has_swap by blast

theorem cache_symmetry_witness:
  "''A'' \<noteq> ''B'' \<and>
   cache_get (cache_set DAList.empty (Str ''A'') (Str ''B'') Greater) (Str ''A'') (Str ''B'')
     = Some Greater \<and>
   cache_get (cache_set DAList.empty (Str ''A'') (Str ''B'') Greater) (Str ''B'') (Str ''A'')
     = Some Less \<and>
   cache_get (cache_set DAList.empty (Str ''B'') (Str ''A'') Less) (Str ''A'') (Str ''B'')
     = Some Greater \<and>
   cache_has (cache_set DAList.empty (Str ''A'') (Str ''B'') Greater) (Str ''B'') (Str ''A'')"
proof -
  have ne: "''A'' \<noteq> ''B''" "''B'' \<noteq> ''A''" by simp_all
  have h: "cache_has (cache_set DAList.empty (Str ''A'') (Str ''B'') Greater) (Str ''A'') (Str ''B'')"
    by (simp add: cache_has_def cache_set_def)
  from cache_symmetry ne h show ?thesis
    by (metis negate.simps(1,3))
qed

text \<open>
  The claim as stated fails for a pair of equal identifiers: \<open>get(x, x)\<close> is not its own
  inverse once a non-tie result was stored for \<open>(x, x)\<close>.
\<close>

theorem cache_symmetry_counterexample:
  "cache_get (cache_set DAList.empty (Str ''x'') (Str ''x'') Greater) (Str ''x'') (Str ''x'')
     \<noteq> map_option negate
          (cache_get (cache_set DAList.empty (Str ''x'') (Str ''x'') Greater) (Str ''x'') (Str ''x''))"
  by (simp add: cache_get_def cache_set_def createCacheKey_def normalizeResult_def)

text \<open>
  C4. \<open>fromRecord(toRecord(c))\<close> answers every \<open>get\<close> and \<open>has\<close> as \<open>c\<close> does, for every pair
  of values: it holds the entries of \<open>c\<close> except one under the key \<open>__proto__\<close>, which
  \<open>toRecord\<close> cannot write and which is the key of no pair. \<open>fromRecord\<close> leaves nothing of
  the prior contents: the cache holds exactly the record's entries, whatever it held
  before.
\<close>

theorem record_roundtrip:
  "cache_get (fromRecord c' (toRecord c)) a b = cache_get c a b \<and>
   cache_has (fromRecord c' (toRecord c)) a b = cache_has c a b \<and>
   DAList.lookup (fromRecord c' (toRecord c)) k =
     (if k = ''__proto__'' then None else DAList.lookup c k) \<and>
   DAList.lookup (fromRecord c' r) k = DAList.lookup r k \<and>
   fromRecord c' r = fromRecord c'' r"
  by (simp add: fromRecord_eq lookup_toRecord)

text \<open>
  C5 (amended). \<open>commitComparison\<close> validates nothing. With no active frame it returns
  the state with the pair recorded in the cache and the count incremented, and leaves the
  runs, the stack and the result as they were. With an active frame it records the pair
  and advances that frame by the result, whichever pair is passed and wherever the
  frame's cursors are: when the cursor it reads is past the end of its run, \<open>undefined\<close> is
  appended to the merged output and the cursor still moves. It fails only when the
  internal state is \<open>null\<close> (a \<open>TypeError\<close>).
\<close>

theorem commit_unvalidated:
  "(internal s = Some st \<longrightarrow> stack st = [] \<longrightarrow>
      commitComparison s a b r =
        Inr (s\<lparr>comparisonsAsked := comparisonsAsked s + 1,
               cache := toRecord (cache_set (cache s) a b r)\<rparr>)) \<and>
   (internal s = Some st \<longrightarrow> stack st \<noteq> [] \<longrightarrow>
      commitComparison s a b r =
        Inr (s\<lparr>comparisonsAsked := comparisonsAsked s + 1,
               cache := toRecord (cache_set (cache s) a b r),
               internal := Some (st\<lparr>stack := butlast (stack st) @
                  [advanceFrame (last (stack st)) r]\<rparr>)\<rparr>)) \<and>
   (internal s = None \<longrightarrow> commitComparison s a b r = Inl TypeError) \<and>
   (length (left f) \<le> leftIdx f \<longrightarrow>
      advanceFrame f Greater = f\<lparr>merged := merged f @ [Undefined], leftIdx := leftIdx f + 1\<rparr>) \<and>
   (length (right f) \<le> rightIdx f \<longrightarrow>
      advanceFrame f Less = f\<lparr>merged := merged f @ [Undefined], rightIdx := rightIdx f + 1\<rparr>)"
  by (auto simp: commitComparison_def createComparisonCache_Some Let_def advanceFrame_def
      elemAt_def)

theorem commit_unvalidated_witness:
  "internal (createSession [''A''] None) = Some \<lparr>runs = [[Str ''A'']], stack = [], result = []\<rparr> \<and>
   commitComparison (createSession [''A''] None) (Str ''X'') (Str ''Y'') Greater =
     Inr ((createSession [''A''] None)\<lparr>comparisonsAsked := 1,
            cache := DAList.update ''X|Y'' Greater DAList.empty\<rparr>) \<and>
   commitComparison
      \<lparr>algo = Merge, comparisonsAsked = 0, comparisonsTotal = 2, cache = DAList.empty,
       internal = Some \<lparr>runs = [],
         stack = [\<lparr>left = [Str ''A''], right = [Str ''B''], leftIdx = 0, rightIdx = 0, merged = []\<rparr>],
         result = []\<rparr>\<rparr> (Str ''X'') (Str ''Y'') Less =
     Inr \<lparr>algo = Merge, comparisonsAsked = 1, comparisonsTotal = 2,
          cache = DAList.update ''X|Y'' Less DAList.empty,
          internal = Some \<lparr>runs = [],
            stack = [\<lparr>left = [Str ''A''], right = [Str ''B''], leftIdx = 0, rightIdx = 1,
                      merged = [Str ''B'']\<rparr>],
            result = []\<rparr>\<rparr> \<and>
   commitComparison
      \<lparr>algo = Merge, comparisonsAsked = 0, comparisonsTotal = 0, cache = DAList.empty,
       internal = None\<rparr> (Str ''X'') (Str ''Y'') Less = Inl TypeError \<and>
   advanceFrame \<lparr>left = [Str ''A''], right = [Str ''B''], leftIdx = 1, rightIdx = 0,
                 merged = [Str ''A'']\<rparr> Greater =
     \<lparr>left = [Str ''A''], right = [Str ''B''], leftIdx = 2, rightIdx = 0,
      merged = [Str ''A'', Undefined]\<rparr>"
proof -
  let ?f = "\<lparr>left = [Str ''A''], right = [Str ''B''], leftIdx = 0, rightIdx = 0, merged = []\<rparr>"
  let ?g = "\<lparr>left = [Str ''A''], right = [Str ''B''], leftIdx = 1, rightIdx = 0,
             merged = [Str ''A'']\<rparr>"
  let ?s = "\<lparr>algo = Merge, comparisonsAsked = 0, comparisonsTotal = 2, cache = DAList.empty,
       internal = Some \<lparr>runs = [], stack = [?f], result = []\<rparr>\<rparr>"
  let ?n = "\<lparr>algo = Merge, comparisonsAsked = 0, comparisonsTotal = 0, cache = DAList.empty,
       internal = None\<rparr>"
  from commit_unvalidated[where s="createSession [''A''] None"
      and st="\<lparr>runs = [[Str ''A'']], stack = [], result = []\<rparr>"
      and a="Str ''X''" and b="Str ''Y''" and r=Greater and f="?g"]
    commit_unvalidated[where s="?s" and st="\<lparr>runs = [], stack = [?f], result = []\<rparr>"
      and a="Str ''X''" and b="Str ''Y''" and r=Less and f="?g"]
    commit_unvalidated[where s="?n" and a="Str ''X''" and b="Str ''Y''" and r=Less and f="?g"]
  show ?thesis
    by (simp add: createSession_def createComparisonCache_None cache_set_def createCacheKey_def
        normalizeResult_def toRecord_proper lookup_update advanceFrame_def elemAt_def)
qed

text \<open>
  The claim as stated fails: a commit on a fresh one-item session (no active frame) is
  accepted; a commit for the pair \<open>(X, Y)\<close> while \<open>(A, B)\<close> is the pending pair is
  accepted and moves the frame of \<open>A\<close> and \<open>B\<close>; and a second commit of \<open>(A, B)\<close>, when
  no pair is pending any more, is accepted and puts \<open>undefined\<close> into the merged output.
\<close>

theorem commit_unvalidated_counterexample:
  "commitComparison (createSession [''A''] None) (Str ''X'') (Str ''Y'') Greater =
     Inr \<lparr>algo = Merge, comparisonsAsked = 1, comparisonsTotal = 0,
          cache = DAList.update ''X|Y'' Greater DAList.empty,
          internal = Some \<lparr>runs = [[Str ''A'']], stack = [], result = []\<rparr>\<rparr> \<and>
   requestNextPair (createSession [''A'', ''B''] None) =
     (Some (Str ''A'', Str ''B''),
      \<lparr>algo = Merge, comparisonsAsked = 0, comparisonsTotal = 2, cache = DAList.empty,
       internal = Some \<lparr>runs = [],
         stack = [\<lparr>left = [Str ''A''], right = [Str ''B''], leftIdx = 0, rightIdx = 0, merged = []\<rparr>],
         result = []\<rparr>\<rparr>) \<and>
   commitComparison
      \<lparr>algo = Merge, comparisonsAsked = 0, comparisonsTotal = 2, cache = DAList.empty,
       internal = Some \<lparr>runs = [],
         stack = [\<lparr>left = [Str ''A''], right = [Str ''B''], leftIdx = 0, rightIdx = 0, merged = []\<rparr>],
         result = []\<rparr>\<rparr> (Str ''X'') (Str ''Y'') Less =
     Inr \<lparr>algo = Merge, comparisonsAsked = 1, comparisonsTotal = 2,
          cache = DAList.update ''X|Y'' Less DAList.empty,
          internal = Some \<lparr>runs = [],
            stack = [\<lparr>left = [Str ''A''], right = [Str ''B''], leftIdx = 0, rightIdx = 1,
                      merged = [Str ''B'']\<rparr>],
            result = []\<rparr>\<rparr> \<and>
   commitComparison
      \<lparr>algo = Merge, comparisonsAsked = 1, comparisonsTotal = 2,
       cache = DAList.update ''A|B'' Greater DAList.empty,
       internal = Some \<lparr>runs = [],
         stack = [\<lparr>left = [Str ''A''], right = [Str ''B''], leftIdx = 1, rightIdx = 0,
                   merged = [Str ''A'']\<rparr>],
         result = []\<rparr>\<rparr> (Str ''A'') (Str ''B'') Greater =
     Inr \<lparr>algo = Merge, comparisonsAsked = 2, comparisonsTotal = 2,
          cache = DAList.update ''A|B'' Greater DAList.empty,
          internal = Some \<lparr>runs = [],
            stack = [\<lparr>left = [Str ''A''], right = [Str ''B''], leftIdx = 2, rightIdx = 0,
                      merged = [Str ''A'', Undefined]\<rparr>],
            result = []\<rparr>\<rparr>"
  by (simp add: run_simps)

text \<open>
  C6. For a one-item list, with or without an existing cache, the session is complete at
  once: \<open>requestNextPair\<close> returns \<open>null\<close>, no comparison is asked, \<open>isComplete\<close> holds
  and \<open>finalize\<close> returns the item. For the empty list \<open>requestNextPair\<close> returns \<open>null\<close>
  with no comparison asked and \<open>finalize\<close> returns the empty list, but \<open>isComplete\<close> is
  false, before and after the request: it asks for exactly one run, and there is none.
\<close>

theorem degenerate_sessions:
  "requestNextPair (createSession [] c) = (None, createSession [] c) \<and>
   comparisonsAsked (createSession [] c) = 0 \<and>
   isComplete (createSession [] c) = False \<and>
   isComplete (snd (requestNextPair (createSession [] c))) = False \<and>
   finalize (createSession [] c) = [] \<and>
   fst (requestNextPair (createSession [x] c)) = None \<and>
   comparisonsAsked (snd (requestNextPair (createSession [x] c))) = 0 \<and>
   isComplete (createSession [x] c) = True \<and>
   isComplete (snd (requestNextPair (createSession [x] c))) = True \<and>
   finalize (snd (requestNextPair (createSession [x] c))) = [Str x]"
  by (simp add: requestNextPair.simps createSession_def isComplete_def finalize_def)

text \<open>
  C10 (amended). Along the request/commit protocol from \<open>createSession\<close>, with any answers,
  the identifiers in the run queue together with those of each active frame (its merged
  output and the unconsumed parts of its two runs) are the input list's as a multiset; the
  stored result is empty or a copy of the one remaining run. Hence \<open>finalize\<close>, once
  \<open>requestNextPair\<close> has returned \<open>null\<close>, is a permutation of the input.
\<close>

theorem items_conserved:
  "(protocol (createSession ids c) s \<longrightarrow>
      (\<exists>st. internal s = Some st \<and> heldItems st = mset (map Str ids) \<and>
         (result st = [] \<or> (stack st = [] \<and> runs st = [result st])))) \<and>
   (protocol (createSession ids c) s \<longrightarrow> requestNextPair s = (None, s') \<longrightarrow>
      mset (finalize s') = mset (map Str ids))"
  using protocol_conserved[OF _ conserved_createSession, of ids c s]
    conserved_finalize[of "mset (map Str ids)" s s']
  by (auto simp: conserved_def)

theorem items_conserved_witness:
  "protocol (createSession [''A'', ''B''] None)
     \<lparr>algo = Merge, comparisonsAsked = 1, comparisonsTotal = 2,
      cache = DAList.update ''A|B'' Greater DAList.empty,
      internal = Some \<lparr>runs = [],
        stack = [\<lparr>left = [Str ''A''], right = [Str ''B''], leftIdx = 1, rightIdx = 0,
                  merged = [Str ''A'']\<rparr>],
        result = []\<rparr>\<rparr> \<and>
   heldItems \<lparr>runs = [],
        stack = [\<lparr>left = [Str ''A''], right = [Str ''B''], leftIdx = 1, rightIdx = 0,
                  merged = [Str ''A'']\<rparr>],
        result = []\<rparr> = mset [Str ''A'', Str ''B''] \<and>
   mset (finalize (snd (requestNextPair
     \<lparr>algo = Merge, comparisonsAsked = 1, comparisonsTotal = 2,
      cache = DAList.update ''A|B'' Greater DAList.empty,
      internal = Some \<lparr>runs = [],
        stack = [\<lparr>left = [Str ''A''], right = [Str ''B''], leftIdx = 1, rightIdx = 0,
                  merged = [Str ''A'']\<rparr>],
        result = []\<rparr>\<rparr>))) = mset [Str ''A'', Str ''B'']"
proof -
  let ?s2 = "\<lparr>algo = Merge, comparisonsAsked = 1, comparisonsTotal = 2,
      cache = DAList.update ''A|B'' Greater DAList.empty,
      internal = Some \<lparr>runs = [],
        stack = [\<lparr>left = [Str ''A''], right = [Str ''B''], leftIdx = 1, rightIdx = 0,
                  merged = [Str ''A'']\<rparr>],
        result = []\<rparr>\<rparr>"
  let ?s1 = "\<lparr>algo = Merge, comparisonsAsked = 0, comparisonsTotal = 2, cache = DAList.empty,
      internal = Some \<lparr>runs = [],
        stack = [\<lparr>left = [Str ''A''], right = [Str ''B''], leftIdx = 0, rightIdx = 0, merged = []\<rparr>],
        result = []\<rparr>\<rparr>"
  have r: "requestNextPair (createSession [''A'', ''B''] None) = (Some (Str ''A'', Str ''B''), ?s1)"
    by (simp add: run_simps)
  have c: "commitComparison ?s1 (Str ''A'') (Str ''B'') Greater = Inr ?s2"
    by (simp add: run_simps)
  have p: "protocol (createSession [''A'', ''B''] None) ?s2"
    by (rule protocol.answer[OF protocol.start r c])
  have n: "fst (requestNextPair ?s2) = None"
    by (simp add: run_simps)
  then have n': "requestNextPair ?s2 = (None, snd (requestNextPair ?s2))"
    by (simp add: prod_eq_iff)
  from items_conserved[of "[''A'', ''B'']" None ?s2 "snd (requestNextPair ?s2)"] p n'
  show ?thesis by auto
qed

text \<open>
  The claim as stated counts the stored result as well: once a one-item session is done,
  the run queue and the result both hold the item.
\<close>

theorem items_conserved_counterexample:
  "snd (requestNextPair (createSession [''A''] None)) =
     \<lparr>algo = Merge, comparisonsAsked = 0, comparisonsTotal = 0, cache = DAList.empty,
      internal = Some \<lparr>runs = [[Str ''A'']], stack = [], result = [Str ''A'']\<rparr>\<rparr> \<and>
   heldItems \<lparr>runs = [[Str ''A'']], stack = [], result = [Str ''A'']\<rparr> + mset [Str ''A'']
     \<noteq> mset [Str ''A'']"
  by (simp add: run_simps heldItems_def)

text \<open>
  C9. \<open>resetWithCache(state, itemIds)\<close> is \<open>createSession(itemIds, state.cache)\<close>. In the
  session it starts, however the comparator answers, \<open>requestNextPair\<close> never returns a
  pair that the previous cache has an entry for, in either order of the pair.
\<close>

theorem reset_keeps_answers:
  "resetWithCache s0 ids = createSession ids (Some (cache s0)) \<and>
   (protocol (resetWithCache s0 ids) s \<longrightarrow> requestNextPair s = (Some (a, b), s') \<longrightarrow>
      \<not> cache_has (createComparisonCache (Some (cache s0))) a b \<and>
      \<not> cache_has (createComparisonCache (Some (cache s0))) b a)"
proof -
  have k0: "keeps (cache s0) (resetWithCache s0 ids)"
    by (simp add: keeps_def resetWithCache_def createSession_def createComparisonCache_Some)
  {
    assume p: "protocol (resetWithCache s0 ids) s" and r: "requestNextPair s = (Some (a, b), s')"
    from protocol_keeps[OF p k0] asked_pair_not_cached[OF r]
    have n: "\<not> cache_has (cache s0) a b"
      by (auto simp: keeps_def)
    from p have "holds (\<lambda>x. \<exists>s. x = Str s) s"
      unfolding resetWithCache_def by (rule protocol_holds[OF _ holds_createSession])
    from holds_request[OF this] r have "holds (\<lambda>x. \<exists>s. x = Str s) s'" by simp
    from pending_strings[OF this rnp_pending[OF r]] obtain a' b'
      where "a = Str a'" "b = Str b'" by blast
    with n have "\<not> cache_has (cache s0) a b \<and> \<not> cache_has (cache s0) b a"
      by (simp add: cache_has_swap[of _ b' a'])
  }
  then show ?thesis by (auto simp: resetWithCache_def createComparisonCache_Some)
qed

theorem reset_keeps_answers_witness:
  "requestNextPair
     (resetWithCache \<lparr>algo = Merge, comparisonsAsked = 1, comparisonsTotal = 2,
        cache = DAList.update ''A|B'' Greater DAList.empty,
        internal = Some \<lparr>runs = [[Str ''A'', Str ''B'']], stack = [],
          result = [Str ''A'', Str ''B'']\<rparr>\<rparr>
        [''A'', ''B'', ''C'']) =
     (Some (Str ''C'', Str ''A''),
      \<lparr>algo = Merge, comparisonsAsked = 0, comparisonsTotal = estimateComparisons 3,
        cache = DAList.update ''A|B'' Greater DAList.empty,
        internal = Some \<lparr>runs = [],
          stack = [\<lparr>left = [Str ''C''], right = [Str ''A'', Str ''B''], leftIdx = 0, rightIdx = 0,
                    merged = []\<rparr>],
          result = []\<rparr>\<rparr>) \<and>
   \<not> cache_has (DAList.update ''A|B'' Greater DAList.empty) (Str ''C'') (Str ''A'') \<and>
   cache_has (DAList.update ''A|B'' Greater DAList.empty) (Str ''B'') (Str ''A'')"
proof -
  let ?s0 = "\<lparr>algo = Merge, comparisonsAsked = 1, comparisonsTotal = 2,
        cache = DAList.update ''A|B'' Greater DAList.empty,
        internal = Some \<lparr>runs = [[Str ''A'', Str ''B'']], stack = [],
          result = [Str ''A'', Str ''B'']\<rparr>\<rparr>"
  let ?s' = "\<lparr>algo = Merge, comparisonsAsked = 0, comparisonsTotal = estimateComparisons 3,
        cache = DAList.update ''A|B'' Greater DAList.empty,
        internal = Some \<lparr>runs = [],
          stack = [\<lparr>left = [Str ''C''], right = [Str ''A'', Str ''B''], leftIdx = 0, rightIdx = 0,
                    merged = []\<rparr>],
          result = []\<rparr>\<rparr>"
  have r: "requestNextPair (resetWithCache ?s0 [''A'', ''B'', ''C'']) =
      (Some (Str ''C'', Str ''A''), ?s')"
    by (simp add: requestNextPair.simps resetWithCache_def createSession_def
        createComparisonCache_Some toRecord_proper lookup_update cache_has_def cache_get_def
        createCacheKey_def normalizeResult_def advanceFrame_def elemAt_def merged_drain Let_def
        numeral_3_eq_3)
  have h: "cache_has (DAList.update ''A|B'' Greater DAList.empty) (Str ''B'') (Str ''A'')"
    by (simp add: cache_has_def createCacheKey_def)
  from reset_keeps_answers[of ?s0 "[''A'', ''B'', ''C'']" "resetWithCache ?s0 [''A'', ''B'', ''C'']"
      "Str ''C''" "Str ''A''" ?s'] protocol.start r h
  show ?thesis by (simp add: createComparisonCache_Some)
qed

text \<open>
  C1 (amended). For every list of distinct identifiers that do not contain the key
  separator \<open>|\<close> and every total order of them (the list \<open>target\<close>, most important first):
  when each pair that \<open>requestNextPair\<close> returns is committed with the answer the order
  gives, until \<open>requestNextPair\<close> returns \<open>null\<close>, \<open>finalize\<close> returns exactly \<open>target\<close>.
  For up to 50 items the number of pairs shown is at most the worst-case number of
  comparisons of a top-down merge sort, and at most \<open>n * log2 n\<close>.
\<close>

theorem session_sorts_by_answers:
  assumes "distinct ids" and "barFree ids" and "mset target = mset ids"
    and "consistent (map Str target) answer"
  shows "finalize (snd (session answer (createSession ids None))) = map Str target \<and>
         fst (requestNextPair (snd (session answer (createSession ids None)))) = None \<and>
         (length ids \<le> 50 \<longrightarrow>
            length (fst (session answer (createSession ids None))) \<le> msortWorst (length ids) \<and>
            real (length (fst (session answer (createSession ids None))))
              \<le> real (length ids) * log 2 (real (length ids)))"
  using session_target[OF assms] session_count_small[of ids answer None] by simp

theorem session_sorts_by_answers_witness:
  "distinct [''A'', ''B'', ''C''] \<and> barFree [''A'', ''B'', ''C''] \<and>
   mset [''C'', ''A'', ''B''] = mset [''A'', ''B'', ''C''] \<and>
   consistent (map Str [''C'', ''A'', ''B'']) (byTarget (map Str [''C'', ''A'', ''B''])) \<and>
   finalize (snd (session (byTarget (map Str [''C'', ''A'', ''B'']))
       (createSession [''A'', ''B'', ''C''] None)))
     = [Str ''C'', Str ''A'', Str ''B''] \<and>
   fst (session (byTarget (map Str [''C'', ''A'', ''B''])) (createSession [''A'', ''B'', ''C''] None))
     = [(Str ''A'', Str ''B''), (Str ''C'', Str ''A'')] \<and>
   length (fst (session (byTarget (map Str [''C'', ''A'', ''B'']))
       (createSession [''A'', ''B'', ''C''] None)))
     \<le> msortWorst (length [''A'', ''B'', ''C''])"
proof -
  have h: "distinct [''A'', ''B'', ''C'']" "barFree [''A'', ''B'', ''C'']"
    "mset [''C'', ''A'', ''B''] = mset [''A'', ''B'', ''C'']"
    by (simp_all add: barFree_def)
  have p: "fst (session (byTarget (map Str [''C'', ''A'', ''B'']))
       (createSession [''A'', ''B'', ''C''] None))
     = [(Str ''A'', Str ''B''), (Str ''C'', Str ''A'')]"
    by (simp add: session.simps run_simps order_simps)
  from session_sorts_by_answers[OF h consistent_byTarget] h consistent_byTarget p
  show ?thesis by simp
qed

text \<open>
  The claim as stated fails for identifiers that contain \<open>|\<close>: the pairs \<open>(a|b, c)\<close> and
  \<open>(a, b|c)\<close> share the key \<open>a|b|c\<close>, so the answer to the first is taken for the second.
\<close>

theorem session_sorts_by_answers_counterexample:
  "distinct [''a|b'', ''c'', ''a'', ''b|c''] \<and>
   mset [''a|b'', ''c'', ''b|c'', ''a''] = mset [''a|b'', ''c'', ''a'', ''b|c''] \<and>
   consistent (map Str [''a|b'', ''c'', ''b|c'', ''a''])
     (byTarget (map Str [''a|b'', ''c'', ''b|c'', ''a''])) \<and>
   finalize (snd (session (byTarget (map Str [''a|b'', ''c'', ''b|c'', ''a'']))
       (createSession [''a|b'', ''c'', ''a'', ''b|c''] None)))
     = map Str [''a|b'', ''c'', ''a'', ''b|c''] \<and>
   [''a|b'', ''c'', ''a'', ''b|c''] \<noteq> [''a|b'', ''c'', ''b|c'', ''a'']"
proof -
  have "finalize (snd (session (byTarget (map Str [''a|b'', ''c'', ''b|c'', ''a'']))
       (createSession [''a|b'', ''c'', ''a'', ''b|c''] None)))
     = map Str [''a|b'', ''c'', ''a'', ''b|c'']"
    by (simp add: session.simps run_simps order_simps)
  then show ?thesis using consistent_byTarget by simp
qed

text \<open>
  C7 (amended). On a frame with both cursors in range, a result of \<open>greater\<close> or \<open>equal\<close>
  appends the left run's current element to the output and moves the left cursor (a tie
  takes the left element); a result of \<open>less\<close> appends the right run's current element and
  moves the right cursor. In every session run to its end, whatever the answers, each
  pair that was shown stands in the final order as it was judged: the first item before
  the second unless the answer was \<open>less\<close>. For distinct identifiers without the separator
  \<open>|\<close>, answered consistently with a total order, the first element of the final order is
  the order's top item: the one judged greater than every other item.
\<close>

theorem greater_side_first:
  "(\<not> frameComplete f \<longrightarrow> r = Greater \<or> r = Equal \<longrightarrow>
      advanceFrame f r = f\<lparr>merged := merged f @ [left f ! leftIdx f],
                            leftIdx := leftIdx f + 1\<rparr>) \<and>
   (\<not> frameComplete f \<longrightarrow>
      advanceFrame f Less = f\<lparr>merged := merged f @ [right f ! rightIdx f],
                               rightIdx := rightIdx f + 1\<rparr>) \<and>
   (\<forall>(a, b) \<in> set (fst (session answer (createSession ids c))).
      if answer a b = Less
      then precedes (finalize (snd (session answer (createSession ids c)))) b a
      else precedes (finalize (snd (session answer (createSession ids c)))) a b) \<and>
   (distinct ids \<and> barFree ids \<and> ids \<noteq> [] \<and> mset target = mset ids \<and>
    consistent (map Str target) answer \<longrightarrow>
      hd (finalize (snd (session answer (createSession ids None)))) = Str (hd target) \<and>
      (\<forall>x \<in> set ids. x \<noteq> hd target \<longrightarrow> answer (Str (hd target)) (Str x) = Greater))"
proof -
  {
    assume h: "distinct ids" "barFree ids" "mset target = mset ids"
      "consistent (map Str target) answer" and ne: "ids \<noteq> []"
    from h(3) ne have tn: "target \<noteq> []" by auto
    from session_target[OF h] tn
    have "hd (finalize (snd (session answer (createSession ids None)))) = Str (hd target)"
      by (simp add: hd_map)
    moreover have "\<forall>x \<in> set ids. x \<noteq> hd target \<longrightarrow> answer (Str (hd target)) (Str x) = Greater"
    proof (intro ballI impI)
      fix x assume x: "x \<in> set ids" and n: "x \<noteq> hd target"
      from x h(3) have "Str x \<in> set (map Str target)" by (auto dest: mset_eq_setD)
      moreover from n tn have "Str x \<noteq> hd (map Str target)" by (simp add: hd_map)
      ultimately have "answer (hd (map Str target)) (Str x) = Greater"
        by (rule top_judged_greater[OF h(4)])
      with tn show "answer (Str (hd target)) (Str x) = Greater" by (simp add: hd_map)
    qed
    ultimately have "hd (finalize (snd (session answer (createSession ids None)))) = Str (hd target) \<and>
      (\<forall>x \<in> set ids. x \<noteq> hd target \<longrightarrow> answer (Str (hd target)) (Str x) = Greater)" by simp
  }
  moreover have "\<forall>(a, b) \<in> set (fst (session answer (createSession ids c))).
      if answer a b = Less
      then precedes (finalize (snd (session answer (createSession ids c)))) b a
      else precedes (finalize (snd (session answer (createSession ids c)))) a b"
    using answers_respected[of _ _ answer "createSession ids c"] by blast
  moreover have "\<not> frameComplete f \<Longrightarrow> leftIdx f < length (left f) \<and> rightIdx f < length (right f)"
    by (simp add: frameComplete_def not_le)
  ultimately show ?thesis by (auto simp: advanceFrame_def)
qed

theorem greater_side_first_witness:
  "advanceFrame \<lparr>left = [Str ''A''], right = [Str ''B''], leftIdx = 0, rightIdx = 0, merged = []\<rparr> Equal
     = \<lparr>left = [Str ''A''], right = [Str ''B''], leftIdx = 1, rightIdx = 0, merged = [Str ''A'']\<rparr> \<and>
   advanceFrame \<lparr>left = [Str ''A''], right = [Str ''B''], leftIdx = 0, rightIdx = 0, merged = []\<rparr> Greater
     = \<lparr>left = [Str ''A''], right = [Str ''B''], leftIdx = 1, rightIdx = 0, merged = [Str ''A'']\<rparr> \<and>
   advanceFrame \<lparr>left = [Str ''A''], right = [Str ''B''], leftIdx = 0, rightIdx = 0, merged = []\<rparr> Less
     = \<lparr>left = [Str ''A''], right = [Str ''B''], leftIdx = 0, rightIdx = 1, merged = [Str ''B'']\<rparr> \<and>
   fst (session (byTarget (map Str [''C'', ''A'', ''B''])) (createSession [''A'', ''B'', ''C''] None))
     = [(Str ''A'', Str ''B''), (Str ''C'', Str ''A'')] \<and>
   byTarget (map Str [''C'', ''A'', ''B'']) (Str ''A'') (Str ''B'') = Greater \<and>
   precedes (finalize (snd (session (byTarget (map Str [''C'', ''A'', ''B'']))
        (createSession [''A'', ''B'', ''C''] None)))) (Str ''A'') (Str ''B'') \<and>
   byTarget (map Str [''C'', ''A'', ''B'']) (Str ''C'') (Str ''A'') = Greater \<and>
   precedes (finalize (snd (session (byTarget (map Str [''C'', ''A'', ''B'']))
        (createSession [''A'', ''B'', ''C''] None)))) (Str ''C'') (Str ''A'') \<and>
   consistent (map Str [''C'', ''A'', ''B'']) (byTarget (map Str [''C'', ''A'', ''B''])) \<and>
   hd (finalize (snd (session (byTarget (map Str [''C'', ''A'', ''B'']))
        (createSession [''A'', ''B'', ''C''] None)))) = Str ''C'' \<and>
   byTarget (map Str [''C'', ''A'', ''B'']) (Str ''C'') (Str ''B'') = Greater"
proof -
  let ?f = "\<lparr>left = [Str ''A''], right = [Str ''B''], leftIdx = 0, rightIdx = 0, merged = []\<rparr>"
  have nc: "\<not> frameComplete ?f" by (simp add: frameComplete_def)
  have h: "distinct [''A'', ''B'', ''C''] \<and> barFree [''A'', ''B'', ''C''] \<and>
    [''A'', ''B'', ''C''] \<noteq> [] \<and> mset [''C'', ''A'', ''B''] = mset [''A'', ''B'', ''C''] \<and>
    consistent (map Str [''C'', ''A'', ''B'']) (byTarget (map Str [''C'', ''A'', ''B'']))"
    using consistent_byTarget by (simp add: barFree_def)
  have p: "fst (session (byTarget (map Str [''C'', ''A'', ''B'']))
       (createSession [''A'', ''B'', ''C''] None))
     = [(Str ''A'', Str ''B''), (Str ''C'', Str ''A'')]"
    by (simp add: session.simps run_simps order_simps)
  have b: "byTarget [Str ''C'', Str ''A'', Str ''B''] (Str ''A'') (Str ''B'') = Greater"
    "byTarget [Str ''C'', Str ''A'', Str ''B''] (Str ''C'') (Str ''A'') = Greater"
    by (simp_all add: order_simps)
  from greater_side_first[where f="?f" and r=Equal and ids="[''A'', ''B'', ''C'']"
      and target="[''C'', ''A'', ''B'']" and answer="byTarget (map Str [''C'', ''A'', ''B''])"
      and c=None]
    greater_side_first[where f="?f" and r=Greater and ids="[''A'', ''B'', ''C'']"
      and target="[''C'', ''A'', ''B'']" and answer="byTarget (map Str [''C'', ''A'', ''B''])"
      and c=None]
    nc h p
  show ?thesis by (simp add: b)
qed

text \<open>
  The claim as stated fails for identifiers that contain \<open>|\<close>: here \<open>c\<close> is judged above
  every item it is compared with, and the final order starts with \<open>a\<close>.
\<close>

theorem greater_side_first_counterexample:
  "consistent (map Str [''c'', ''a'', ''b|c'', ''a|b''])
     (byTarget (map Str [''c'', ''a'', ''b|c'', ''a|b''])) \<and>
   mset [''c'', ''a'', ''b|c'', ''a|b''] = mset [''a'', ''b|c'', ''a|b'', ''c''] \<and>
   finalize (snd (session (byTarget (map Str [''c'', ''a'', ''b|c'', ''a|b'']))
       (createSession [''a'', ''b|c'', ''a|b'', ''c''] None)))
     = map Str [''a'', ''b|c'', ''a|b'', ''c''] \<and>
   byTarget (map Str [''c'', ''a'', ''b|c'', ''a|b'']) (Str ''c'') (Str ''a'') = Greater"
proof -
  have "finalize (snd (session (byTarget (map Str [''c'', ''a'', ''b|c'', ''a|b'']))
       (createSession [''a'', ''b|c'', ''a|b'', ''c''] None)))
     = map Str [''a'', ''b|c'', ''a|b'', ''c'']"
    by (simp add: session.simps run_simps order_simps)
  then show ?thesis using consistent_byTarget by (simp add: order_simps)
qed

text \<open>
  C8 (amended). After \<open>applyTransitiveClosure\<close> over the identifier list, every pair of
  distinct identifiers related by a chain of cached strict greater-than results has a
  cache entry; an entry the pass inserted is \<open>greater\<close> or \<open>less\<close>. When the identifiers do
  not contain the key separator \<open>|\<close> and no chain runs the other way, the entry inserted
  for the pair is \<open>greater\<close> in the chain's direction. An entry that was present before is
  never changed. With exactly \<open>A > B\<close> and \<open>B > C\<close> cached, \<open>get(A, C)\<close> is \<open>greater\<close> after
  the pass over \<open>A, B, C\<close>.
\<close>

theorem closure_fills_chains:
  "((i, j) \<in> (greaterEdges c ids)\<^sup>+ \<longrightarrow> i \<noteq> j \<longrightarrow>
      cache_has (applyTransitiveClosure c ids) (Str i) (Str j) \<and>
      (\<not> cache_has c (Str i) (Str j) \<longrightarrow>
         cache_get (applyTransitiveClosure c ids) (Str i) (Str j) = Some Greater \<or>
         cache_get (applyTransitiveClosure c ids) (Str i) (Str j) = Some Less) \<and>
      (\<not> cache_has c (Str i) (Str j) \<longrightarrow> barFree ids \<longrightarrow> (j, i) \<notin> (greaterEdges c ids)\<^sup>+ \<longrightarrow>
         cache_get (applyTransitiveClosure c ids) (Str i) (Str j) = Some Greater)) \<and>
   (cache_has c a b \<longrightarrow> cache_get (applyTransitiveClosure c ids) a b = cache_get c a b) \<and>
   \<not> cache_has (cache_set (cache_set DAList.empty (Str ''A'') (Str ''B'') Greater)
          (Str ''B'') (Str ''C'') Greater)
       (Str ''A'') (Str ''C'') \<and>
   cache_get (applyTransitiveClosure
       (cache_set (cache_set DAList.empty (Str ''A'') (Str ''B'') Greater)
          (Str ''B'') (Str ''C'') Greater)
       [''A'', ''B'', ''C'']) (Str ''A'') (Str ''C'') = Some Greater"
proof -
  let ?c0 = "cache_set (cache_set DAList.empty (Str ''A'') (Str ''B'') Greater)
      (Str ''B'') (Str ''C'') Greater"
  have e: "(''A'', ''B'') \<in> greaterEdges ?c0 [''A'', ''B'', ''C'']"
    "(''B'', ''C'') \<in> greaterEdges ?c0 [''A'', ''B'', ''C'']"
    by (simp_all add: greaterEdges_def cache_get_def cache_set_def createCacheKey_def
        normalizeResult_def lookup_update)
  then have ac: "(''A'', ''C'') \<in> (greaterEdges ?c0 [''A'', ''B'', ''C''])\<^sup>+" by auto
  have n: "\<not> cache_has ?c0 (Str ''A'') (Str ''C'')"
    by (simp add: cache_has_def cache_set_def createCacheKey_def lookup_update)
  have "(''C'', ''A'') \<notin> (greaterEdges ?c0 [''A'', ''B'', ''C''])\<^sup>+"
  proof
    assume "(''C'', ''A'') \<in> (greaterEdges ?c0 [''A'', ''B'', ''C''])\<^sup>+"
    then obtain z where "(''C'', z) \<in> greaterEdges ?c0 [''A'', ''B'', ''C'']"
      by (auto dest: tranclD)
    then show False
      by (auto simp: greaterEdges_def cache_get_def cache_set_def createCacheKey_def
          normalizeResult_def lookup_update split: if_splits)
  qed
  from closure_oriented[OF _ ac this n]
  have "cache_get (applyTransitiveClosure ?c0 [''A'', ''B'', ''C'']) (Str ''A'') (Str ''C'')
      = Some Greater"
    by (simp add: barFree_def)
  with n closure_has[of i j c ids] closure_new_strict[of c "Str i" "Str j" ids]
    closure_oriented[of ids i j c] closure_keeps[of c a b ids]
  show ?thesis by blast
qed

theorem closure_fills_chains_witness:
  "(''A'', ''C'') \<in> (greaterEdges
       (cache_set (cache_set DAList.empty (Str ''A'') (Str ''B'') Greater)
          (Str ''B'') (Str ''C'') Greater)
       [''A'', ''B'', ''C''])\<^sup>+ \<and>
   cache_has (applyTransitiveClosure
       (cache_set (cache_set DAList.empty (Str ''A'') (Str ''B'') Greater)
          (Str ''B'') (Str ''C'') Greater)
       [''A'', ''B'', ''C'']) (Str ''A'') (Str ''C'') \<and>
   cache_get (applyTransitiveClosure
       (cache_set (cache_set DAList.empty (Str ''A'') (Str ''B'') Greater)
          (Str ''B'') (Str ''C'') Greater)
       [''A'', ''B'', ''C'']) (Str ''B'') (Str ''A'') = Some Less"
proof -
  let ?c0 = "cache_set (cache_set DAList.empty (Str ''A'') (Str ''B'') Greater)
      (Str ''B'') (Str ''C'') Greater"
  have e: "(''A'', ''B'') \<in> greaterEdges ?c0 [''A'', ''B'', ''C'']"
    "(''B'', ''C'') \<in> greaterEdges ?c0 [''A'', ''B'', ''C'']"
    by (simp_all add: greaterEdges_def cache_get_def cache_set_def createCacheKey_def
        normalizeResult_def lookup_update)
  then have ac: "(''A'', ''C'') \<in> (greaterEdges ?c0 [''A'', ''B'', ''C''])\<^sup>+" by auto
  have h: "cache_has ?c0 (Str ''B'') (Str ''A'')" "cache_get ?c0 (Str ''B'') (Str ''A'') = Some Less"
    by (simp_all add: cache_has_def cache_get_def cache_set_def createCacheKey_def
        normalizeResult_def lookup_update)
  from closure_fills_chains[of "''A''" "''C''" ?c0 "[''A'', ''B'', ''C'']" "Str ''B''" "Str ''A''"]
    ac h
  show ?thesis by simp
qed

text \<open>
  The claim as stated fails for identifiers that contain \<open>|\<close>. With \<open>b|c > a|b\<close>,
  \<open>a|b > a\<close> and \<open>a > c\<close> cached, the pass first infers \<open>b|c > a\<close> and stores it under the
  key \<open>a|b|c\<close>; that is also the key of the pair \<open>(a|b, c)\<close>, so for the chain
  \<open>a|b > a > c\<close> nothing is stored, and \<open>get(a|b, c)\<close> reads the other pair's entry:
  \<open>less\<close>, against the chain, although no chain runs from \<open>c\<close> to \<open>a|b\<close>.
\<close>

theorem closure_fills_chains_counterexample:
  "(''a|b'', ''a'') \<in> greaterEdges
       (cache_set (cache_set (cache_set DAList.empty (Str ''b|c'') (Str ''a|b'') Greater)
          (Str ''a|b'') (Str ''a'') Greater) (Str ''a'') (Str ''c'') Greater)
       [''b|c'', ''a|b'', ''a'', ''c''] \<and>
   (''a'', ''c'') \<in> greaterEdges
       (cache_set (cache_set (cache_set DAList.empty (Str ''b|c'') (Str ''a|b'') Greater)
          (Str ''a|b'') (Str ''a'') Greater) (Str ''a'') (Str ''c'') Greater)
       [''b|c'', ''a|b'', ''a'', ''c''] \<and>
   (''c'', ''a|b'') \<notin> (greaterEdges
       (cache_set (cache_set (cache_set DAList.empty (Str ''b|c'') (Str ''a|b'') Greater)
          (Str ''a|b'') (Str ''a'') Greater) (Str ''a'') (Str ''c'') Greater)
       [''b|c'', ''a|b'', ''a'', ''c''])\<^sup>+ \<and>
   \<not> cache_has
       (cache_set (cache_set (cache_set DAList.empty (Str ''b|c'') (Str ''a|b'') Greater)
          (Str ''a|b'') (Str ''a'') Greater) (Str ''a'') (Str ''c'') Greater)
       (Str ''a|b'') (Str ''c'') \<and>
   cache_get (applyTransitiveClosure
       (cache_set (cache_set (cache_set DAList.empty (Str ''b|c'') (Str ''a|b'') Greater)
          (Str ''a|b'') (Str ''a'') Greater) (Str ''a'') (Str ''c'') Greater)
       [''b|c'', ''a|b'', ''a'', ''c'']) (Str ''a|b'') (Str ''c'') = Some Less"
proof -
  let ?c0 = "cache_set (cache_set (cache_set DAList.empty (Str ''b|c'') (Str ''a|b'') Greater)
          (Str ''a|b'') (Str ''a'') Greater) (Str ''a'') (Str ''c'') Greater"
  let ?ids = "[''b|c'', ''a|b'', ''a'', ''c'']"
  have e: "(''a|b'', ''a'') \<in> greaterEdges ?c0 ?ids" "(''a'', ''c'') \<in> greaterEdges ?c0 ?ids"
    by (simp_all add: greaterEdges_def cache_get_def cache_set_def createCacheKey_def
        normalizeResult_def lookup_update)
  have n: "\<not> cache_has ?c0 (Str ''a|b'') (Str ''c'')"
    by (simp add: cache_has_def cache_set_def createCacheKey_def normalizeResult_def lookup_update)
  have "(''c'', ''a|b'') \<notin> (greaterEdges ?c0 ?ids)\<^sup>+"
  proof
    assume "(''c'', ''a|b'') \<in> (greaterEdges ?c0 ?ids)\<^sup>+"
    then obtain z where "(''c'', z) \<in> greaterEdges ?c0 ?ids"
      by (auto dest: tranclD)
    then show False
      by (auto simp: greaterEdges_def cache_get_def cache_set_def createCacheKey_def
          normalizeResult_def lookup_update split: if_splits)
  qed
  moreover have "cache_get (applyTransitiveClosure ?c0 ?ids) (Str ''a|b'') (Str ''c'') = Some Less"
    by (simp add: applyTransitiveClosure_def directGraph_def initGraph_def closureStep_def
        addDirect_def graph_add_def graph_has_def cache_get_def cache_set_def cache_has_def
        createCacheKey_def normalizeResult_def lookup_update Let_def)
  ultimately show ?thesis using e n by simp
qed

text \<open>
  C2 (amended). Reading back the serialized state gives the state with \<open>null\<close> in place
  of every \<open>undefined\<close> array element. Every state reached by the request/commit protocol
  from \<open>createSession\<close> is definite (no array holds \<open>undefined\<close>), and for every definite
  state the value read back is the state itself, so a run resumed from it requests the
  same pairs and ends in the same state and final order as the run that was not
  interrupted, for the same remaining answers. This also holds when the state was saved
  after \<open>requestNextPair\<close> returned a pair that was not answered yet: the resumed run
  requests that pair again. In particular, when a run from a definite state is
  interrupted after the answers \<open>rs1\<close>, saved, read back and continued with the answers
  \<open>rs\<close>, it ends in the state in which the run of \<open>rs1 @ rs\<close> ends, and the pairs answered
  before the interruption followed by the pairs requested after it are the pairs of that
  run.
\<close>

theorem resume_same_run:
  "deserialize (serialize s) = Some (reloaded s) \<and>
   (protocol (createSession ids c) s \<longrightarrow> definite s) \<and>
   (definite s \<longrightarrow>
      deserialize (serialize s) = Some s \<and>
      replay rs (the (deserialize (serialize s))) = replay rs s \<and>
      finalize (snd (replay rs (the (deserialize (serialize s))))) = finalize (snd (replay rs s)) \<and>
      (requestNextPair s = (p, s') \<longrightarrow>
         requestNextPair (the (deserialize (serialize s'))) = (p, s') \<and>
         replay rs (the (deserialize (serialize s'))) = replay rs s) \<and>
      snd (replay rs (the (deserialize (serialize (snd (replay rs1 s))))))
        = snd (replay (rs1 @ rs) s) \<and>
      take (length rs1) (fst (replay rs1 s)) @
        fst (replay rs (the (deserialize (serialize (snd (replay rs1 s))))))
        = fst (replay (rs1 @ rs) s))"
proof -
  {
    assume d: "definite s" and r: "requestNextPair s = (p, s')"
    from d r holds_request[of "\<lambda>x. x \<noteq> Undefined" s] have "definite s'"
      by (simp add: definite_def)
    then have "reloaded s' = s'" by (rule reloaded_definite)
    with rnp_idem[OF r] replay_after_request[OF r, of rs]
    have "requestNextPair (the (deserialize (serialize s'))) = (p, s') \<and>
         replay rs (the (deserialize (serialize s'))) = replay rs s"
      by (simp add: deserialize_serialize)
  }
  moreover
  {
    assume "definite s"
    then have "definite (snd (replay rs1 s))"
      unfolding definite_def by (rule holds_replay)
    then have "reloaded (snd (replay rs1 s)) = snd (replay rs1 s)" by (rule reloaded_definite)
    with replay_append[of rs1 rs s]
    have "snd (replay rs (the (deserialize (serialize (snd (replay rs1 s))))))
        = snd (replay (rs1 @ rs) s) \<and>
      take (length rs1) (fst (replay rs1 s)) @
        fst (replay rs (the (deserialize (serialize (snd (replay rs1 s))))))
        = fst (replay (rs1 @ rs) s)"
      by (simp add: deserialize_serialize)
  }
  ultimately show ?thesis
    using protocol_definite[of ids c s] reloaded_definite[of s]
    by (auto simp: deserialize_serialize)
qed

theorem resume_same_run_witness:
  "protocol (createSession [''A'', ''B'', ''C''] None) (createSession [''A'', ''B'', ''C''] None) \<and>
   definite (createSession [''A'', ''B'', ''C''] None) \<and>
   replay [Less] (createSession [''A'', ''B'', ''C''] None) =
     ([(Str ''A'', Str ''B''), (Str ''C'', Str ''B'')],
      \<lparr>algo = Merge, comparisonsAsked = 1, comparisonsTotal = estimateComparisons 3,
       cache = DAList.update ''A|B'' Less DAList.empty,
       internal = Some \<lparr>runs = [],
         stack = [\<lparr>left = [Str ''C''], right = [Str ''B'', Str ''A''], leftIdx = 0, rightIdx = 0,
                   merged = []\<rparr>],
         result = []\<rparr>\<rparr>) \<and>
   fst (replay [Greater] (the (deserialize (serialize
     \<lparr>algo = Merge, comparisonsAsked = 1, comparisonsTotal = estimateComparisons 3,
       cache = DAList.update ''A|B'' Less DAList.empty,
       internal = Some \<lparr>runs = [],
         stack = [\<lparr>left = [Str ''C''], right = [Str ''B'', Str ''A''], leftIdx = 0, rightIdx = 0,
                   merged = []\<rparr>],
         result = []\<rparr>\<rparr>)))) = [(Str ''C'', Str ''B'')] \<and>
   fst (replay [Less, Greater] (createSession [''A'', ''B'', ''C''] None)) =
     [(Str ''A'', Str ''B''), (Str ''C'', Str ''B'')] \<and>
   finalize (snd (replay [Greater] (the (deserialize (serialize
     \<lparr>algo = Merge, comparisonsAsked = 1, comparisonsTotal = estimateComparisons 3,
       cache = DAList.update ''A|B'' Less DAList.empty,
       internal = Some \<lparr>runs = [],
         stack = [\<lparr>left = [Str ''C''], right = [Str ''B'', Str ''A''], leftIdx = 0, rightIdx = 0,
                   merged = []\<rparr>],
         result = []\<rparr>\<rparr>))))) = [Str ''C'', Str ''B'', Str ''A''] \<and>
   finalize (snd (replay [Less, Greater] (createSession [''A'', ''B'', ''C''] None)))
     = [Str ''C'', Str ''B'', Str ''A'']"
proof -
  let ?s0 = "createSession [''A'', ''B'', ''C''] None"
  let ?s1 = "\<lparr>algo = Merge, comparisonsAsked = 1, comparisonsTotal = estimateComparisons 3,
       cache = DAList.update ''A|B'' Less DAList.empty,
       internal = Some \<lparr>runs = [],
         stack = [\<lparr>left = [Str ''C''], right = [Str ''B'', Str ''A''], leftIdx = 0, rightIdx = 0,
                   merged = []\<rparr>],
         result = []\<rparr>\<rparr>"
  have u: "replay [Less] ?s0 = ([(Str ''A'', Str ''B''), (Str ''C'', Str ''B'')], ?s1)"
    by (simp add: requestNextPair.simps createSession_def createComparisonCache_Some
        createComparisonCache_None toRecord_proper commitComparison_def cache_has_def
        cache_get_def cache_set_def createCacheKey_def normalizeResult_def lookup_update
        advanceFrame_def elemAt_def merged_drain Let_def frameComplete_def numeral_3_eq_3)
  have v: "fst (replay [Less, Greater] ?s0) = [(Str ''A'', Str ''B''), (Str ''C'', Str ''B'')]"
    "finalize (snd (replay [Less, Greater] ?s0)) = [Str ''C'', Str ''B'', Str ''A'']"
    by (simp_all add: requestNextPair.simps createSession_def createComparisonCache_Some
        createComparisonCache_None toRecord_proper commitComparison_def cache_has_def
        cache_get_def cache_set_def createCacheKey_def normalizeResult_def lookup_update
        advanceFrame_def elemAt_def merged_drain Let_def frameComplete_def finalize_def
        numeral_3_eq_3)
  note t = resume_same_run[where s="?s0" and ids="[''A'', ''B'', ''C'']" and c=None
      and rs="[Greater]" and ?rs1.0="[Less]"]
  from t protocol.start[of ?s0] have d: "definite ?s0" by blast
  with t have "snd (replay [Greater] (the (deserialize (serialize (snd (replay [Less] ?s0))))))
        = snd (replay ([Less] @ [Greater]) ?s0)"
    and "take (length [Less]) (fst (replay [Less] ?s0)) @
        fst (replay [Greater] (the (deserialize (serialize (snd (replay [Less] ?s0))))))
        = fst (replay ([Less] @ [Greater]) ?s0)"
    by blast+
  with u v d protocol.start[of ?s0] show ?thesis by (simp del: replay.simps)
qed

text \<open>
  The claim as stated fails for a state reached by calls that do not follow the protocol.
  After the pair \<open>(A, B)\<close> was committed twice, the merged output holds \<open>undefined\<close>; the
  run that is not interrupted ends with \<open>A, undefined, B\<close>, and the run resumed from the
  serialized state ends with \<open>A, null, B\<close>.
\<close>

theorem resume_same_run_counterexample:
  "requestNextPair (createSession [''A'', ''B''] None) =
     (Some (Str ''A'', Str ''B''),
      \<lparr>algo = Merge, comparisonsAsked = 0, comparisonsTotal = 2, cache = DAList.empty,
       internal = Some \<lparr>runs = [],
         stack = [\<lparr>left = [Str ''A''], right = [Str ''B''], leftIdx = 0, rightIdx = 0, merged = []\<rparr>],
         result = []\<rparr>\<rparr>) \<and>
   commitComparison
      \<lparr>algo = Merge, comparisonsAsked = 0, comparisonsTotal = 2, cache = DAList.empty,
       internal = Some \<lparr>runs = [],
         stack = [\<lparr>left = [Str ''A''], right = [Str ''B''], leftIdx = 0, rightIdx = 0, merged = []\<rparr>],
         result = []\<rparr>\<rparr> (Str ''A'') (Str ''B'') Greater =
     Inr \<lparr>algo = Merge, comparisonsAsked = 1, comparisonsTotal = 2,
          cache = DAList.update ''A|B'' Greater DAList.empty,
          internal = Some \<lparr>runs = [],
            stack = [\<lparr>left = [Str ''A''], right = [Str ''B''], leftIdx = 1, rightIdx = 0,
                      merged = [Str ''A'']\<rparr>],
            result = []\<rparr>\<rparr> \<and>
   commitComparison
      \<lparr>algo = Merge, comparisonsAsked = 1, comparisonsTotal = 2,
       cache = DAList.update ''A|B'' Greater DAList.empty,
       internal = Some \<lparr>runs = [],
         stack = [\<lparr>left = [Str ''A''], right = [Str ''B''], leftIdx = 1, rightIdx = 0,
                   merged = [Str ''A'']\<rparr>],
         result = []\<rparr>\<rparr> (Str ''A'') (Str ''B'') Greater =
     Inr \<lparr>algo = Merge, comparisonsAsked = 2, comparisonsTotal = 2,
          cache = DAList.update ''A|B'' Greater DAList.empty,
          internal = Some \<lparr>runs = [],
            stack = [\<lparr>left = [Str ''A''], right = [Str ''B''], leftIdx = 2, rightIdx = 0,
                      merged = [Str ''A'', Undefined]\<rparr>],
            result = []\<rparr>\<rparr> \<and>
   finalize (snd (replay []
      \<lparr>algo = Merge, comparisonsAsked = 2, comparisonsTotal = 2,
       cache = DAList.update ''A|B'' Greater DAList.empty,
       internal = Some \<lparr>runs = [],
         stack = [\<lparr>left = [Str ''A''], right = [Str ''B''], leftIdx = 2, rightIdx = 0,
                   merged = [Str ''A'', Undefined]\<rparr>],
         result = []\<rparr>\<rparr>)) = [Str ''A'', Undefined, Str ''B''] \<and>
   finalize (snd (replay [] (the (deserialize (serialize
      \<lparr>algo = Merge, comparisonsAsked = 2, comparisonsTotal = 2,
       cache = DAList.update ''A|B'' Greater DAList.empty,
       internal = Some \<lparr>runs = [],
         stack = [\<lparr>left = [Str ''A''], right = [Str ''B''], leftIdx = 2, rightIdx = 0,
                   merged = [Str ''A'', Undefined]\<rparr>],
         result = []\<rparr>\<rparr>))))) = [Str ''A'', Null, Str ''B'']"
  by (simp add: run_simps deserialize_serialize reloaded_def reloadedInternal_def
      reloadedFrame_def reloadedElem_def)

end
